theory Spec2Isabelle
  imports Main "HOL-Library.Sublist"
begin

section \<open>Python strings\<close>

text \<open>
  A Python \<open>str\<close> is modelled as a \<open>string\<close> whose characters are the code points
  0 to 255.  The character classes below are those of Python 3 on that range:
  \<open>str.isspace\<close> (also the class \<open>\s\<close> of \<open>re\<close>), the decimal digits of \<open>\d\<close>,
  \<open>str.isdigit\<close>, the word characters of \<open>\w\<close>, and \<open>str.lower\<close>.
\<close>

definition code :: "char \<Rightarrow> nat" where
  "code c = of_char c"

definition is_space :: "char \<Rightarrow> bool" where
  "is_space c = (code c \<in> {9, 10, 11, 12, 13, 28, 29, 30, 31, 32, 133, 160})"

definition is_decimal :: "char \<Rightarrow> bool" where
  "is_decimal c = (48 \<le> code c \<and> code c \<le> 57)"

definition isdigit :: "char \<Rightarrow> bool" where
  "isdigit c = (is_decimal c \<or> code c \<in> {178, 179, 185})"

definition is_ascii_alpha :: "char \<Rightarrow> bool" where
  "is_ascii_alpha c = ((65 \<le> code c \<and> code c \<le> 90) \<or> (97 \<le> code c \<and> code c \<le> 122))"

definition is_word :: "char \<Rightarrow> bool" where
  "is_word c = (is_ascii_alpha c \<or> is_decimal c \<or> code c = 95
     \<or> code c \<in> {170, 178, 179, 181, 185, 186, 188, 189, 190}
     \<or> (192 \<le> code c \<and> code c \<le> 214) \<or> (216 \<le> code c \<and> code c \<le> 246)
     \<or> 248 \<le> code c)"

definition is_upper :: "char \<Rightarrow> bool" where
  "is_upper c = ((65 \<le> code c \<and> code c \<le> 90) \<or> (192 \<le> code c \<and> code c \<le> 222 \<and> code c \<noteq> 215))"

definition lower_chr :: "char \<Rightarrow> char" where
  "lower_chr c = (if is_upper c then char_of (code c + 32) else c)"

definition is_lower :: "char \<Rightarrow> bool" where
  "is_lower c = ((97 \<le> code c \<and> code c \<le> 122) \<or> (224 \<le> code c \<and> code c \<le> 254 \<and> code c \<noteq> 247))"

text \<open>\<open>str.upper\<close> on one character, where the result is again a code point below 256;
  the other characters are left as they are.\<close>

definition upper_chr :: "char \<Rightarrow> char" where
  "upper_chr c = (if is_lower c then char_of (code c - 32) else c)"

definition lower :: "string \<Rightarrow> string" where
  "lower s = map lower_chr s"

definition lstrip :: "string \<Rightarrow> string" where
  "lstrip s = dropWhile is_space s"

definition rstrip :: "string \<Rightarrow> string" where
  "rstrip s = rev (dropWhile is_space (rev s))"

definition strip :: "string \<Rightarrow> string" where
  "strip s = rstrip (lstrip s)"

text \<open>\<open>s.split()\<close>: the maximal runs of non-whitespace characters, in order.\<close>

function split_ws :: "string \<Rightarrow> string list" where
  "split_ws [] = []"
| "split_ws (c # cs) =
     (if is_space c then split_ws cs
      else (c # takeWhile (\<lambda>x. \<not> is_space x) cs) # split_ws (dropWhile (\<lambda>x. \<not> is_space x) cs))"
  by pat_completeness auto
termination
  by (relation "measure length") (auto simp: length_dropWhile_le le_imp_less_Suc)

text \<open>\<open>sep.join(parts)\<close>.\<close>

fun join :: "string \<Rightarrow> string list \<Rightarrow> string" where
  "join sep [] = []"
| "join sep [w] = w"
| "join sep (w # v # ws) = w @ sep @ join sep (v # ws)"

text \<open>\<open>s.split(sep)\<close> for a separator of one character: the pieces between the
  separators, empty pieces included.\<close>

fun split_chr :: "char \<Rightarrow> string \<Rightarrow> string list" where
  "split_chr sep [] = [[]]"
| "split_chr sep (c # cs) =
     (if c = sep then [] # split_chr sep cs
      else (case split_chr sep cs of [] \<Rightarrow> [[c]] | p # ps \<Rightarrow> (c # p) # ps))"

definition startswith :: "string \<Rightarrow> string \<Rightarrow> bool" where
  "startswith s p = (take (length p) s = p)"

text \<open>\<open>s.replace(old, new)\<close> for a non-empty \<open>old\<close>: the occurrences are replaced from
  left to right, without overlap.\<close>

fun replace :: "string \<Rightarrow> string \<Rightarrow> string \<Rightarrow> string" where
  "replace old new [] = []"
| "replace old new (c # cs) =
     (if startswith (c # cs) old then new @ replace old new (drop (length old - 1) cs)
      else c # replace old new cs)"

section \<open>Record dictionaries\<close>

text \<open>
  A collected record is a Python dictionary from field names to values.  The values the
  collectors store are strings, or \<open>None\<close> where a browser attribute is absent.
  String methods called on \<open>None\<close> raise, and so does \<open>re.sub\<close>.
\<close>

datatype pyval = Str string | PNone

datatype error = AttributeError | TypeError

type_synonym entry = "string \<rightharpoonup> pyval"

definition get :: "entry \<Rightarrow> string \<Rightarrow> pyval \<Rightarrow> pyval" where
  "get d k dflt = (case d k of None \<Rightarrow> dflt | Some v \<Rightarrow> v)"

definition bind :: "error + 'a \<Rightarrow> ('a \<Rightarrow> error + 'b) \<Rightarrow> error + 'b" where
  "bind r f = (case r of Inl e \<Rightarrow> Inl e | Inr v \<Rightarrow> f v)"

section \<open>Data cleaning (core/data\_processor.py)\<close>

text \<open>Name and address: \<open>strip\<close>, then \<open>' '.join(s.split())\<close>.\<close>

definition clean_spaces :: "pyval \<Rightarrow> error + pyval" where
  "clean_spaces v =
     (if v \<noteq> Str ''N/A'' then
        (case v of
           Str s \<Rightarrow> Inr (Str (join '' '' (split_ws (strip s))))
         | PNone \<Rightarrow> Inl AttributeError)
      else Inr v)"

text \<open>\<open>re.sub(r'[^\d+]', '', phone)\<close>.\<close>

definition phone_chars :: "string \<Rightarrow> string" where
  "phone_chars s = filter (\<lambda>c. is_decimal c \<or> c = CHR ''+'') s"

definition clean_phone :: "pyval \<Rightarrow> error + pyval" where
  "clean_phone v =
     (if v \<noteq> Str ''N/A'' then
        (case v of
           Str s \<Rightarrow>
             (let phone = phone_chars s in
              if phone \<noteq> [] \<and> \<not> startswith phone ''+'' \<and> length phone \<ge> 10 then
                Inr (Str (if length phone = 10 then ''+234'' @ drop (length phone - 10) phone
                          else ''+234'' @ phone))
              else Inr (Str phone))
         | PNone \<Rightarrow> Inl TypeError)
      else Inr v)"

definition clean_email :: "pyval \<Rightarrow> error + pyval" where
  "clean_email v =
     (if v \<noteq> Str ''N/A'' then
        (case v of Str s \<Rightarrow> Inr (Str (lower (strip s))) | PNone \<Rightarrow> Inl AttributeError)
      else Inr v)"

definition clean_website :: "pyval \<Rightarrow> error + pyval" where
  "clean_website v =
     (if v \<noteq> Str ''N/A'' then
        (case v of
           Str s \<Rightarrow>
             (let website = strip s in
              if \<not> (startswith website ''http://'' \<or> startswith website ''https://'')
              then Inr (Str (''https://'' @ website))
              else Inr (Str website))
         | PNone \<Rightarrow> Inl AttributeError)
      else Inr v)"

definition clean_instagram :: "pyval \<Rightarrow> error + pyval" where
  "clean_instagram v =
     (if v \<noteq> Str ''N/A'' then
        (case v of
           Str s \<Rightarrow>
             (let instagram = strip s in
              if \<not> (startswith instagram ''http://'' \<or> startswith instagram ''https://'') then
                (if startswith instagram ''@''
                 then Inr (Str (''https://instagram.com/'' @ drop 1 instagram))
                 else Inr (Str (''https://instagram.com/'' @ instagram)))
              else Inr (Str instagram))
         | PNone \<Rightarrow> Inl AttributeError)
      else Inr v)"

text \<open>The remaining fields are stripped when they are strings.\<close>

definition clean_other :: "pyval \<Rightarrow> pyval" where
  "clean_other v =
     (if v \<noteq> Str ''N/A'' \<and> (case v of Str _ \<Rightarrow> True | PNone \<Rightarrow> False)
      then (case v of Str s \<Rightarrow> Str (strip s) | PNone \<Rightarrow> v)
      else v)"

definition other_fields :: "string list" where
  "other_fields = [''country'', ''state'', ''location'', ''hours'', ''products_services'', ''image_path'']"

text \<open>The dictionary \<open>cleaned\<close> once every field has been assigned.\<close>

definition cleaned_of ::
  "entry \<Rightarrow> pyval \<Rightarrow> pyval \<Rightarrow> pyval \<Rightarrow> pyval \<Rightarrow> pyval \<Rightarrow> pyval \<Rightarrow> entry" where
  "cleaned_of d name phone email website instagram address =
     fold (\<lambda>field cleaned. cleaned(field \<mapsto> clean_other (get d field (Str ''N/A''))))
       other_fields
       [''name'' \<mapsto> name, ''phone'' \<mapsto> phone, ''email'' \<mapsto> email,
        ''website'' \<mapsto> website, ''instagram'' \<mapsto> instagram,
        ''address'' \<mapsto> address]"

definition clean_data_entry :: "entry \<Rightarrow> error + entry" where
  "clean_data_entry d =
     bind (clean_spaces (get d ''name'' (Str ''N/A''))) (\<lambda>name.
     bind (clean_phone (get d ''phone'' (Str ''N/A''))) (\<lambda>phone.
     bind (clean_email (get d ''email'' (Str ''N/A''))) (\<lambda>email.
     bind (clean_website (get d ''website'' (Str ''N/A''))) (\<lambda>website.
     bind (clean_instagram (get d ''instagram'' (Str ''N/A''))) (\<lambda>instagram.
     bind (clean_spaces (get d ''address'' (Str ''N/A''))) (\<lambda>address.
       Inr (cleaned_of d name phone email website instagram address)))))))"

section \<open>Duplicate removal (core/data\_processor.py)\<close>

text \<open>\<open>item.get(field, '').strip().lower()\<close>.\<close>

definition key_part :: "entry \<Rightarrow> string \<Rightarrow> error + string" where
  "key_part item field =
     (case get item field (Str []) of
        Str s \<Rightarrow> Inr (lower (strip s))
      | PNone \<Rightarrow> Inl AttributeError)"

definition unique_key :: "entry \<Rightarrow> error + (string \<times> string)" where
  "unique_key item =
     bind (key_part item ''name'') (\<lambda>name.
     bind (key_part item ''address'') (\<lambda>address. Inr (name, address)))"

text \<open>The loop of \<open>remove_duplicates\<close>, over the set \<open>unique_entries\<close> and the list
  \<open>cleaned_data\<close>.\<close>

fun remove_duplicates_loop ::
  "(string \<times> string) set \<Rightarrow> entry list \<Rightarrow> entry list \<Rightarrow> error + entry list" where
  "remove_duplicates_loop unique_entries cleaned_data [] = Inr cleaned_data"
| "remove_duplicates_loop unique_entries cleaned_data (item # rest) =
     (case unique_key item of
        Inl e \<Rightarrow> Inl e
      | Inr k \<Rightarrow>
          if k \<in> unique_entries then remove_duplicates_loop unique_entries cleaned_data rest
          else remove_duplicates_loop (insert k unique_entries) (cleaned_data @ [item]) rest)"

definition remove_duplicates :: "entry list \<Rightarrow> error + entry list" where
  "remove_duplicates data = remove_duplicates_loop {} [] data"

text \<open>A token of \<open>split\<close>: non-empty and free of whitespace.\<close>

definition token :: "string \<Rightarrow> bool" where
  "token w = (w \<noteq> [] \<and> (\<forall>c\<in>set w. \<not> is_space c))"

text \<open>Example entries.\<close>

definition phone_entry_long :: entry where
  "phone_entry_long = [''phone'' \<mapsto> Str ''0803 123 4567'']"

definition phone_cleaned_long :: entry where
  "phone_cleaned_long =
     cleaned_of phone_entry_long (Str ''N/A'') (Str ''+23408031234567'') (Str ''N/A'')
       (Str ''N/A'') (Str ''N/A'') (Str ''N/A'')"

definition phone_entry_short :: entry where
  "phone_entry_short = [''phone'' \<mapsto> Str ''555-0199'']"

definition phone_cleaned_short :: entry where
  "phone_cleaned_short =
     cleaned_of phone_entry_short (Str ''N/A'') (Str ''5550199'') (Str ''N/A'')
       (Str ''N/A'') (Str ''N/A'') (Str ''N/A'')"

text \<open>The items that \<open>remove_duplicates\<close> keeps, given the keys already seen: an
  auxiliary description of the loop, used in the proofs.\<close>

fun firsts :: "(error + string \<times> string) set \<Rightarrow> entry list \<Rightarrow> entry list" where
  "firsts S [] = []"
| "firsts S (x # xs) =
     (if unique_key x \<in> S then firsts S xs else x # firsts (insert (unique_key x) S) xs)"

definition shop_a :: entry where
  "shop_a = [''name'' \<mapsto> Str ''Shop A'', ''address'' \<mapsto> Str ''1 Main St'']"

definition shop_b :: entry where
  "shop_b = [''name'' \<mapsto> Str ''Shop B'', ''address'' \<mapsto> Str ''2 High St'']"

definition shop_a_again :: entry where
  "shop_a_again = [''name'' \<mapsto> Str '' shop a '', ''address'' \<mapsto> Str ''1 MAIN ST'',
                   ''phone'' \<mapsto> Str ''0803 123 4567'']"

section \<open>Address extraction fallbacks (core/data\_collection.py)\<close>

text \<open>
  What the browser returns for one result element: the text found by each name selector
  and each address selector, in the order the code tries them, and the text of the
  element itself.  \<open>None\<close> stands for a lookup that raises.  The element does not
  change during the call: the two reads of its text give the same value.
\<close>

record result_element =
  name_texts :: "string option list"
  address_texts :: "string option list"
  element_text :: "string option"

record info =
  name :: string
  address :: string

text \<open>\<open>any(char.isdigit() for char in line)\<close>.\<close>

definition has_digit :: "string \<Rightarrow> bool" where
  "has_digit line = list_ex isdigit line"

text \<open>\<open>[line.strip() for line in text.split('\n') if line.strip()]\<close>.\<close>

definition stripped_lines :: "string \<Rightarrow> string list" where
  "stripped_lines text = map strip (filter (\<lambda>line. strip line \<noteq> []) (split_chr (CHR 0x0A) text))"

text \<open>The loop over \<open>name_selectors\<close>: a selector that raises is skipped.\<close>

fun select_name :: "string option list \<Rightarrow> string option" where
  "select_name [] = None"
| "select_name (None # rest) = select_name rest"
| "select_name (Some t # rest) =
     (let name_text = strip t in
      if name_text \<noteq> [] \<and> name_text \<noteq> ''Results'' then Some name_text
      else select_name rest)"

text \<open>The loop over \<open>address_selectors\<close>.\<close>

fun select_address :: "string \<Rightarrow> string option list \<Rightarrow> string option" where
  "select_address nm [] = None"
| "select_address nm (None # rest) = select_address nm rest"
| "select_address nm (Some t # rest) =
     (let address_text = strip t in
      if address_text \<noteq> [] \<and> address_text \<noteq> nm then Some address_text
      else select_address nm rest)"

text \<open>The loop over \<open>lines[1:]\<close> of the free-text fallback before the click: the first
  line that has a digit or more than three tokens.\<close>

fun address_like_line :: "string list \<Rightarrow> string option" where
  "address_like_line [] = None"
| "address_like_line (line # rest) =
     (if has_digit line \<or> length (split_ws line) > 3 then Some line
      else address_like_line rest)"

definition fallback_name :: "string option \<Rightarrow> string \<Rightarrow> string" where
  "fallback_name etext nm =
     (case etext of
        None \<Rightarrow> nm
      | Some t \<Rightarrow>
          (let text = strip t in
           if text \<noteq> [] \<and> text \<noteq> ''Results'' then
             (case stripped_lines text of [] \<Rightarrow> nm | l # _ \<Rightarrow> l)
           else nm))"

definition fallback_address :: "string option \<Rightarrow> string \<Rightarrow> string" where
  "fallback_address etext nm =
     (case etext of
        None \<Rightarrow> ''N/A''
      | Some t \<Rightarrow>
          (let text = strip t in
           if text \<noteq> [] \<and> text \<noteq> ''Results'' \<and> text \<noteq> nm then
             (let lines = stripped_lines text in
              if length lines > 1 then
                (case address_like_line (drop 1 lines) of None \<Rightarrow> ''N/A'' | Some line \<Rightarrow> line)
              else ''N/A'')
           else ''N/A''))"

definition extract_info_from_result :: "result_element \<Rightarrow> info" where
  "extract_info_from_result el =
     (let name0 = (case select_name (name_texts el) of None \<Rightarrow> ''Unknown'' | Some n \<Rightarrow> n);
          name1 = (if name0 = ''Unknown'' then fallback_name (element_text el) name0 else name0);
          address0 = (case select_address name1 (address_texts el) of
                        None \<Rightarrow> ''N/A'' | Some a \<Rightarrow> a);
          address1 = (if address0 = ''N/A'' then fallback_address (element_text el) name1
                      else address0)
      in \<lparr>name = name1, address = address1\<rparr>)"

text \<open>
  The detail page: the loop of \<open>extract_data\<close> over the texts of the
  \<open>div.fontBodyMedium\<close> elements, taken when the address button is not found.  A text
  that cannot be read raises, and the handler stores \<open>N/A\<close>.
\<close>

fun detail_address_loop :: "string option list \<Rightarrow> string" where
  "detail_address_loop [] = ''N/A''"
| "detail_address_loop (None # rest) = ''N/A''"
| "detail_address_loop (Some t # rest) =
     (let text = strip t in
      if text \<noteq> [] \<and> has_digit text \<and> length (split_ws text) > 3 then text
      else detail_address_loop rest)"

definition detail_address_fallback :: "string option list option \<Rightarrow> string" where
  "detail_address_fallback address_elements =
     (case address_elements of None \<Rightarrow> ''N/A'' | Some els \<Rightarrow> detail_address_loop els)"

text \<open>A result element whose first name selector gives \<open>Corner Shop\<close>, whose address
  selectors find nothing, and whose text has the two lines \<open>Corner Shop\<close> and
  \<open>Suite 5\<close>.\<close>

definition suite_element :: result_element where
  "suite_element =
     \<lparr>name_texts = [Some ''Corner Shop'', None, None, None, None, None],
      address_texts = [None, None, None],
      element_text = Some (''Corner Shop'' @ [CHR 0x0A] @ ''Suite 5'')\<rparr>"

text \<open>The same element with the second line \<open>Near the old market square\<close>: five
  tokens and no digit.\<close>

definition market_element :: result_element where
  "market_element =
     \<lparr>name_texts = [Some ''Corner Shop'', None, None, None, None, None],
      address_texts = [None, None, None],
      element_text = Some (''Corner Shop'' @ [CHR 0x0A] @ ''Near the old market square'')\<rparr>"

text \<open>The two tests, as the two fallbacks write them.\<close>

definition digit_or_tokens :: "string \<Rightarrow> bool" where
  "digit_or_tokens line = (has_digit line \<or> length (split_ws line) > 3)"

definition digit_and_tokens :: "string \<Rightarrow> bool" where
  "digit_and_tokens text = (text \<noteq> [] \<and> has_digit text \<and> length (split_ws text) > 3)"

section \<open>Regular expressions (the part of \<open>re\<close> that utils/data\_extraction.py uses)\<close>

text \<open>
  The patterns of \<open>EmailExtractor\<close> are sequences of: the word boundary \<open>\b\<close>, a
  literal character, a character class repeated greedily at least \<open>n\<close> times (\<open>+\<close>,
  \<open>*\<close>, \<open>{2,}\<close>), and the end anchor \<open>$\<close>.  A class is a set of characters, written
  out, or \<open>\s\<close>.  With \<open>re.IGNORECASE\<close> a character matches a class when its lowercase
  form, or the uppercase form of that, is in the class, and a literal when the lowercase
  forms agree.
\<close>

datatype cls = Chars string | Whitespace

datatype atom = Boundary | Lit char | Many cls nat | End_anchor

type_synonym pattern = "atom list"

definition in_cls :: "bool \<Rightarrow> cls \<Rightarrow> char \<Rightarrow> bool" where
  "in_cls ignorecase k c =
     (case k of
        Whitespace \<Rightarrow> is_space c
      | Chars cs \<Rightarrow>
          if ignorecase then lower_chr c \<in> set cs \<or> upper_chr (lower_chr c) \<in> set cs
          else c \<in> set cs)"

definition lit_eq :: "bool \<Rightarrow> char \<Rightarrow> char \<Rightarrow> bool" where
  "lit_eq ignorecase p c = (if ignorecase then lower_chr c = lower_chr p else c = p)"

text \<open>\<open>\b\<close>: exactly one of the characters before and after the position is a word
  character; the ends of the text count as non-word.\<close>

definition word_before :: "char option \<Rightarrow> bool" where
  "word_before prev = (case prev of None \<Rightarrow> False | Some c \<Rightarrow> is_word c)"

definition word_after :: "string \<Rightarrow> bool" where
  "word_after s = (case s of [] \<Rightarrow> False | c # _ \<Rightarrow> is_word c)"

definition at_boundary :: "char option \<Rightarrow> string \<Rightarrow> bool" where
  "at_boundary prev s = (word_before prev \<noteq> word_after s)"

text \<open>The character before the position reached after \<open>j\<close> characters of \<open>s\<close>.\<close>

definition prev_after :: "char option \<Rightarrow> string \<Rightarrow> nat \<Rightarrow> char option" where
  "prev_after prev s j = (if j = 0 then prev else Some (s ! (j - 1)))"

fun first_some :: "'a option list \<Rightarrow> 'a option" where
  "first_some [] = None"
| "first_some (None # rest) = first_some rest"
| "first_some (Some x # rest) = Some x"

text \<open>
  \<open>match_here ic p prev s\<close>: the length of the match of \<open>p\<close> at the start of \<open>s\<close> that
  the backtracking matcher finds first, if any; \<open>prev\<close> is the character before \<open>s\<close> in
  the text.  A repetition tries the longest run first and gives characters back one at a
  time.
\<close>

fun match_here :: "bool \<Rightarrow> pattern \<Rightarrow> char option \<Rightarrow> string \<Rightarrow> nat option" where
  "match_here ic [] prev s = Some 0"
| "match_here ic (Boundary # p) prev s =
     (if at_boundary prev s then match_here ic p prev s else None)"
| "match_here ic (End_anchor # p) prev s =
     (if s = [] \<or> s = [CHR 0x0A] then match_here ic p prev s else None)"
| "match_here ic (Lit c # p) prev s =
     (case s of
        [] \<Rightarrow> None
      | x # xs \<Rightarrow> if lit_eq ic c x then map_option Suc (match_here ic p (Some x) xs) else None)"
| "match_here ic (Many k n # p) prev s =
     (let run = length (takeWhile (in_cls ic k) s) in
      first_some
        (map (\<lambda>j. map_option (\<lambda>r. j + r) (match_here ic p (prev_after prev s j) (drop j s)))
           (rev [n..<Suc run])))"

text \<open>\<open>re.findall(pattern, text)\<close> for a pattern without groups: the matches from left to
  right, each search starting where the previous match ended.\<close>

function findall_from :: "bool \<Rightarrow> pattern \<Rightarrow> char option \<Rightarrow> string \<Rightarrow> string list" where
  "findall_from ic p prev [] = (case match_here ic p prev [] of None \<Rightarrow> [] | Some _ \<Rightarrow> [[]])"
| "findall_from ic p prev (c # cs) =
     (case match_here ic p prev (c # cs) of
        None \<Rightarrow> findall_from ic p (Some c) cs
      | Some 0 \<Rightarrow> [] # findall_from ic p (Some c) cs
      | Some (Suc n) \<Rightarrow>
          take (Suc n) (c # cs) # findall_from ic p (Some ((c # cs) ! n)) (drop n cs))"
  by pat_completeness auto
termination
  by (relation "measure (\<lambda>(ic, p, prev, s). length s)") auto

definition findall :: "bool \<Rightarrow> pattern \<Rightarrow> string \<Rightarrow> string list" where
  "findall ic p text = findall_from ic p None text"

text \<open>\<open>re.match(pattern, text) is not None\<close>.\<close>

definition re_match :: "bool \<Rightarrow> pattern \<Rightarrow> string \<Rightarrow> bool" where
  "re_match ic p text = (match_here ic p None text \<noteq> None)"

section \<open>Email harvesting (utils/data\_extraction.py)\<close>

definition letters :: string where
  "letters = ''ABCDEFGHIJKLMNOPQRSTUVWXYZabcdefghijklmnopqrstuvwxyz''"

definition digits :: string where
  "digits = ''0123456789''"

text \<open>\<open>[A-Za-z0-9._%+-]\<close>, \<open>[A-Za-z0-9.-]\<close> and \<open>[A-Z|a-z]\<close>.\<close>

definition local_chars :: cls where
  "local_chars = Chars (letters @ digits @ ''._%+-'')"

definition domain_chars :: cls where
  "domain_chars = Chars (letters @ digits @ ''.-'')"

definition tld_chars :: cls where
  "tld_chars = Chars (''ABCDEFGHIJKLMNOPQRSTUVWXYZ'' @ ''|'' @ ''abcdefghijklmnopqrstuvwxyz'')"

definition email_patterns :: "pattern list" where
  "email_patterns =
     [ [Boundary, Many local_chars 1, Lit CHR ''@'', Many domain_chars 1, Lit CHR ''.'',
        Many tld_chars 2, Boundary],
       [Boundary, Many local_chars 1, Many Whitespace 0, Lit CHR ''@'', Many Whitespace 0,
        Many domain_chars 1, Lit CHR ''.'', Many tld_chars 2, Boundary],
       [Boundary, Many local_chars 1, Many Whitespace 0, Lit CHR ''['', Many Whitespace 0,
        Lit CHR ''@'', Many Whitespace 0, Lit CHR '']'', Many Whitespace 0,
        Many domain_chars 1, Lit CHR ''.'', Many tld_chars 2, Boundary],
       [Boundary, Many local_chars 1, Lit CHR ''('', Lit CHR ''a'', Lit CHR ''t'', Lit CHR '')'',
        Many domain_chars 1, Lit CHR ''.'', Many tld_chars 2, Boundary],
       [Boundary, Many local_chars 1, Many Whitespace 0, Lit CHR ''('', Lit CHR ''a'',
        Lit CHR '')'', Many Whitespace 0, Many domain_chars 1, Lit CHR ''.'', Many tld_chars 2,
        Boundary] ]"

text \<open>\<open>validate_email\<close>: \<open>^[a-zA-Z0-9._%+-]+@[a-zA-Z0-9.-]+\.[a-zA-Z]{2,}$\<close>, case
  sensitive.\<close>

definition validate_email :: "string \<Rightarrow> bool" where
  "validate_email email =
     re_match False
       [Many local_chars 1, Lit CHR ''@'', Many domain_chars 1, Lit CHR ''.'',
        Many (Chars letters) 2, End_anchor]
       email"

definition clean_up :: "string \<Rightarrow> string" where
  "clean_up email =
     replace ''(a)'' ''@'' (replace ''(at)'' ''@'' (replace '']'' [] (replace ''['' []
       (replace '' '' [] email))))"

text \<open>The set \<open>emails\<close> is kept as a list without repetitions, in the order of
  insertion.  The program returns \<open>list(emails)\<close>, whose order is that of the set: a
  result with more than one address is determined here only up to its order.\<close>

definition add :: "string \<Rightarrow> string list \<Rightarrow> string list" where
  "add e emails = (if e \<in> set emails then emails else emails @ [e])"

definition scan_found :: "string list \<Rightarrow> string list \<Rightarrow> string list" where
  "scan_found found_emails emails =
     fold (\<lambda>email acc. if validate_email (clean_up email) then add (lower (clean_up email)) acc
                         else acc)
       found_emails emails"

definition scan_text :: "string \<Rightarrow> string list \<Rightarrow> string list" where
  "scan_text text emails =
     fold (\<lambda>pattern acc. scan_found (findall True pattern text) acc) email_patterns emails"

text \<open>
  The crawl of \<open>extract_emails\<close>.  The web is a function from a URL to the page that a
  request returns; \<open>None\<close> stands for a status other than 200 and for a request that
  raises.  A page is its rendered text and its anchors with an \<open>href\<close>, each with the
  absolute URL that \<open>urljoin\<close> gives for it.
\<close>

record link =
  href :: string
  absolute_url :: string
  link_text :: string

record page =
  page_text :: string
  page_links :: "link list"

type_synonym web = "string \<Rightarrow> page option"

text \<open>\<open>sub in s\<close>.\<close>

fun contains :: "string \<Rightarrow> string \<Rightarrow> bool" where
  "contains [] sub = (sub = [])"
| "contains (c # cs) sub = (startswith (c # cs) sub \<or> contains cs sub)"

definition contact_keywords :: "string list" where
  "contact_keywords = [''contact'', ''about'', ''team'', ''staff'', ''reach'', ''connect'']"

definition is_contact_page :: "string \<Rightarrow> bool" where
  "is_contact_page text = list_ex (\<lambda>keyword. contains text keyword) contact_keywords"

definition contact_links :: "page \<Rightarrow> string set \<Rightarrow> string list" where
  "contact_links pg visited_urls =
     map absolute_url
       (filter (\<lambda>l. href l \<noteq> [] \<and> \<not> startswith (href l) ''mailto:''
                    \<and> \<not> startswith (href l) ''tel:''
                    \<and> is_contact_page (lower (link_text l))
                    \<and> absolute_url l \<notin> visited_urls)
          (page_links pg))"

text \<open>The loop \<open>for _ in range(max_pages)\<close>.\<close>

fun crawl :: "web \<Rightarrow> nat \<Rightarrow> string list \<Rightarrow> string set \<Rightarrow> string list \<Rightarrow> string list" where
  "crawl fetch 0 emails visited_urls urls_to_visit = emails"
| "crawl fetch (Suc n) emails visited_urls [] = emails"
| "crawl fetch (Suc n) emails visited_urls (current_url # rest) =
     (if current_url \<in> visited_urls then crawl fetch n emails visited_urls rest
      else
        (case fetch current_url of
           None \<Rightarrow> crawl fetch n emails (insert current_url visited_urls) rest
         | Some pg \<Rightarrow>
             crawl fetch n (scan_text (page_text pg) emails) (insert current_url visited_urls)
               (rest @ contact_links pg (insert current_url visited_urls))))"

definition extract_emails :: "web \<Rightarrow> string \<Rightarrow> nat \<Rightarrow> string list" where
  "extract_emails fetch url max_pages =
     (let emails = crawl fetch max_pages [] {} [url] in
      if emails \<noteq> [] then emails else [''N/A''])"

text \<open>A site of one page with the given text.\<close>

definition one_page :: "string \<Rightarrow> string \<Rightarrow> web" where
  "one_page url text = (\<lambda>u. if u = url then Some \<lparr>page_text = text, page_links = []\<rparr> else None)"

section \<open>The entry worker (DataProcessor.run in core/data\_collection.py)\<close>

text \<open>
  What the browser gives one worker: the result element, whether one of the three click
  attempts succeeds, and the dictionary that \<open>extract_data\<close> returns (\<open>None\<close> when it
  raises).
\<close>

record worker_input =
  element :: result_element
  click_ok :: bool
  extracted :: "entry option"

text \<open>The signal a worker emits: \<open>data_ready\<close>, \<open>skipped\<close> with the entry number, name
  and address of its message, or \<open>error\<close> with the entry number.\<close>

datatype outcome =
    Data_ready entry
  | Skipped nat pyval pyval
  | Failed nat

text \<open>\<open>not d.get(k)\<close>: the key is absent, or its value is \<open>None\<close> or the empty string.\<close>

definition falsy :: "pyval option \<Rightarrow> bool" where
  "falsy v = (v = None \<or> v = Some PNone \<or> v = Some (Str []))"

text \<open>The test \<open>skip_missing_social and data.get('website') == "N/A" and
  data.get('instagram') == "N/A"\<close>, which both paths apply.\<close>

definition should_skip :: "bool \<Rightarrow> entry \<Rightarrow> bool" where
  "should_skip skip data =
     (skip \<and> data ''website'' = Some (Str ''N/A'') \<and> data ''instagram'' = Some (Str ''N/A''))"

definition worker_run :: "bool \<Rightarrow> nat \<Rightarrow> worker_input \<Rightarrow> outcome" where
  "worker_run skip index w =
     (let entry_info = extract_info_from_result (element w);
          entry_name = name entry_info;
          entry_address = address entry_info
      in
      if \<not> click_ok w then Failed (index + 1)
      else
        (case extracted w of
           None \<Rightarrow> Failed (index + 1)
         | Some data0 \<Rightarrow>
             if data0 = Map.empty then Failed (index + 1)
             else
               (let data1 = (if data0 ''name'' = Some (Str ''N/A'')
                                \<or> data0 ''name'' = Some (Str ''Results'')
                                \<or> falsy (data0 ''name'')
                             then data0(''name'' \<mapsto> Str entry_name) else data0);
                    data2 = (if data1 ''address'' = Some (Str ''N/A'') \<or> falsy (data1 ''address'')
                             then data1(''address'' \<mapsto> Str entry_address) else data1)
                in
                if should_skip skip data2
                then Skipped (index + 1) (get data2 ''name'' (Str entry_name))
                       (get data2 ''address'' (Str entry_address))
                else Data_ready data2)))"

section \<open>The collector thread (DataCollectorThread)\<close>

text \<open>
  The fields of the thread that the collection loop reads and writes, and the signals it
  has emitted so far: the records of \<open>data_collected\<close> (each is emitted on
  \<open>real_time_update\<close> too), the notices of \<open>entry_skipped\<close>, \<open>finished\<close> and
  \<open>error_occurred\<close>.  \<open>started\<close> lists the result indices whose workers were handed to
  the thread pool.
\<close>

record collector =
  num_entries :: int
  skip_missing_social :: bool
  api_key :: bool
  country :: pyval
  location :: pyval
  state :: pyval
  search_query :: pyval
  is_running :: bool
  is_paused :: bool
  internet_connected :: bool
  collected_count :: int
  skipped_count :: int
  processed_count :: int
  max_to_process :: int
  data_collected :: "entry list"
  entry_skipped :: "(nat \<times> pyval \<times> pyval) list"
  started :: "nat list"
  finished :: bool
  error_occurred :: bool

text \<open>\<open>__init__\<close>.\<close>

definition init :: "int \<Rightarrow> bool \<Rightarrow> bool \<Rightarrow> pyval \<Rightarrow> pyval \<Rightarrow> pyval \<Rightarrow> pyval \<Rightarrow> collector" where
  "init n skip key ctry loc st query =
     \<lparr>num_entries = n, skip_missing_social = skip, api_key = key, country = ctry,
      location = loc, state = st, search_query = query, is_running = True,
      is_paused = False, internet_connected = True, collected_count = 0,
      skipped_count = 0, processed_count = 0, max_to_process = n * 5,
      data_collected = [], entry_skipped = [], started = [], finished = False,
      error_occurred = False\<rparr>"

text \<open>The four assignments at the start of \<open>handle_data_ready\<close>.\<close>

definition tagged :: "collector \<Rightarrow> entry \<Rightarrow> entry" where
  "tagged s data =
     data(''country'' \<mapsto> country s, ''location'' \<mapsto> location s,
          ''state'' \<mapsto> state s, ''search_query'' \<mapsto> search_query s)"

definition handle_data_ready :: "collector \<Rightarrow> entry \<Rightarrow> collector" where
  "handle_data_ready s data =
     s\<lparr>data_collected := data_collected s @ [tagged s data],
       collected_count := collected_count s + 1\<rparr>"

definition handle_entry_skipped :: "collector \<Rightarrow> nat \<times> pyval \<times> pyval \<Rightarrow> collector" where
  "handle_entry_skipped s message =
     s\<lparr>skipped_count := skipped_count s + 1, entry_skipped := entry_skipped s @ [message]\<rparr>"

text \<open>\<open>handle_worker_error\<close> only forwards the message as a status.\<close>

definition handle_worker_error :: "collector \<Rightarrow> nat \<Rightarrow> collector" where
  "handle_worker_error s message = s"

definition deliver :: "collector \<Rightarrow> outcome \<Rightarrow> collector" where
  "deliver s out =
     (case out of
        Data_ready data \<Rightarrow> handle_data_ready s data
      | Skipped i n a \<Rightarrow> handle_entry_skipped s (i, n, a)
      | Failed i \<Rightarrow> handle_worker_error s i)"

text \<open>
  What the browser answers during one pass of the loop body: the number of result
  elements that each of the two \<open>find_elements\<close> calls returns (\<open>None\<close> when the call
  raises), the value of \<open>load_more_results\<close>, and the input of the worker for each result
  index.
\<close>

record batch =
  results1 :: "nat option"
  load_more :: bool
  results2 :: "nat option"
  worker_inputs :: "nat \<Rightarrow> worker_input"

datatype pc = Loop_head | Waiting | After_loop

text \<open>The running loop: the thread, the local \<open>consecutive_errors\<close>, and where control
  is: at the head of the \<open>while\<close>, in the inner loop that waits for the connection, or
  after the loop.\<close>

record loop =
  self :: collector
  consecutive_errors :: int
  at :: pc

text \<open>The state at \<open>consecutive_errors = 0\<close>, before the \<open>while\<close>.\<close>

definition start :: "collector \<Rightarrow> loop" where
  "start s = \<lparr>self = s, consecutive_errors = 0, at = Loop_head\<rparr>"

text \<open>Leaving the loop, by its condition or by \<open>break\<close>: the code after it emits
  \<open>finished\<close>.\<close>

definition leave :: "loop \<Rightarrow> loop" where
  "leave l = l\<lparr>self := (self l)\<lparr>finished := True\<rparr>, at := After_loop\<rparr>"

text \<open>
  A batch over \<open>n\<close> result elements: the workers of the batch are started, their signals
  are handled, and \<open>processed_count\<close> advances by the batch size.  Every worker emits
  exactly one signal; the signals of a batch are taken to be handled before
  \<open>waitForDone\<close> returns, in the order of the result indices.  In the program the
  handlers are queued slots and the wait has a timeout of 30 seconds, so a signal can be
  handled later and in the order in which the workers complete: \<open>collected_count\<close> as
  the loop reads it can then be smaller than here, never larger.
\<close>

definition batch_size :: "collector \<Rightarrow> nat \<Rightarrow> int" where
  "batch_size s n =
     min 4 (min (int n - processed_count s) (max_to_process s - processed_count s))"

definition batch_indices :: "collector \<Rightarrow> nat \<Rightarrow> nat list" where
  "batch_indices s n =
     map (\<lambda>i. nat (processed_count s) + i) [0..<nat (batch_size s n)]"

definition dispatch :: "loop \<Rightarrow> batch \<Rightarrow> nat \<Rightarrow> loop" where
  "dispatch l b n =
     (let s = self l in
      if batch_size s n \<le> 0 then leave l
      else
        (let s1 = s\<lparr>started := started s @ batch_indices s n\<rparr>;
             s2 = fold (\<lambda>result_index t.
                          deliver t (worker_run (skip_missing_social t) result_index
                                       (worker_inputs b result_index)))
                    (batch_indices s n) s1
         in l\<lparr>self := s2\<lparr>processed_count := processed_count s2 + batch_size s n\<rparr>\<rparr>))"

text \<open>The condition of the \<open>while\<close>.\<close>

definition loop_condition :: "loop \<Rightarrow> bool" where
  "loop_condition l =
     (collected_count (self l) < num_entries (self l)
      \<and> processed_count (self l) < max_to_process (self l)
      \<and> is_running (self l) \<and> consecutive_errors l < 3)"

text \<open>One pass from the head of the \<open>while\<close>.\<close>

definition loop_head :: "loop \<Rightarrow> batch \<Rightarrow> loop" where
  "loop_head l b =
     (let s = self l in
      if loop_condition l then
        if \<not> internet_connected s then l\<lparr>self := s\<lparr>is_paused := True\<rparr>, at := Waiting\<rparr>
        else
          (case results1 b of
             None \<Rightarrow> l\<lparr>consecutive_errors := consecutive_errors l + 1\<rparr>
           | Some n \<Rightarrow>
               if processed_count s \<ge> int n then
                 (if \<not> load_more b then leave l
                  else
                    (case results2 b of
                       None \<Rightarrow> l\<lparr>consecutive_errors := consecutive_errors l + 1\<rparr>
                     | Some n2 \<Rightarrow>
                         if processed_count s \<ge> int n2 then leave l else dispatch l b n2))
               else dispatch l b n)
      else leave l)"

text \<open>One evaluation of \<open>while not self.internet_connected and self.is_running\<close>, and
  the code after that loop.\<close>

definition waiting :: "loop \<Rightarrow> loop" where
  "waiting l =
     (let s = self l in
      if \<not> internet_connected s \<and> is_running s then l
      else if \<not> is_running s then leave l
      else l\<lparr>self := s\<lparr>is_paused := False\<rparr>, at := Loop_head\<rparr>)"

text \<open>
  The events of a run: the loop advances by one step, with the browser's answers for
  it, or another thread calls \<open>set_connection_status\<close> or \<open>stop\<close>.  The calls of other
  threads come between the steps of the loop.
\<close>

datatype event = Step batch | Set_connection_status bool | Stop

fun step :: "event \<Rightarrow> loop \<Rightarrow> loop" where
  "step (Set_connection_status is_connected) l =
     l\<lparr>self := (self l)\<lparr>internet_connected := is_connected\<rparr>\<rparr>"
| "step Stop l = l\<lparr>self := (self l)\<lparr>is_running := False\<rparr>\<rparr>"
| "step (Step b) l =
     (case at l of
        Loop_head \<Rightarrow> loop_head l b
      | Waiting \<Rightarrow> waiting l
      | After_loop \<Rightarrow> l)"

definition run_events :: "event list \<Rightarrow> loop \<Rightarrow> loop" where
  "run_events evs l = fold step evs l"

section \<open>The structured-API path (collect\_via\_api)\<close>

text \<open>
  One place of the search result: whether it has a \<open>place_id\<close>, the details dictionary
  (\<open>None\<close> when it is empty), the \<open>formatted_address\<close>, the JSON text of the hours, the
  image path after the download, and the value of \<open>is_running\<close> when the loop reaches the
  place.
\<close>

record place =
  has_place_id :: bool
  details :: "entry option"
  formatted_address :: "pyval option"
  hours_json :: string
  image_path :: string
  running :: bool

text \<open>\<open>extract_emails(website)[0]\<close>; a request for a URL that is not a string raises
  inside \<open>extract_emails\<close>, which then returns \<open>["N/A"]\<close>.\<close>

definition first_email :: "web \<Rightarrow> pyval \<Rightarrow> pyval" where
  "first_email fetch website =
     (case website of
        Str url \<Rightarrow> (case extract_emails fetch url 2 of [] \<Rightarrow> Str ''N/A'' | e # _ \<Rightarrow> Str e)
      | PNone \<Rightarrow> Str ''N/A'')"

definition place_data :: "collector \<Rightarrow> web \<Rightarrow> place \<Rightarrow> entry \<Rightarrow> entry" where
  "place_data s fetch p det =
     (let website = get det ''website'' (Str ''N/A'') in
      [''country'' \<mapsto> country s, ''location'' \<mapsto> location s, ''state'' \<mapsto> state s,
       ''search_query'' \<mapsto> search_query s,
       ''name'' \<mapsto> get det ''name'' (Str ''N/A''),
       ''phone'' \<mapsto> get det ''formatted_phone_number'' (Str ''N/A''),
       ''website'' \<mapsto> website,
       ''email'' \<mapsto> (if website \<noteq> Str ''N/A'' then first_email fetch website else Str ''N/A''),
       ''instagram'' \<mapsto> Str ''N/A'',
       ''address'' \<mapsto> (case formatted_address p of None \<Rightarrow> Str ''N/A'' | Some a \<Rightarrow> a),
       ''hours'' \<mapsto> Str (hours_json p),
       ''products_services'' \<mapsto> Str ''N/A'',
       ''image_path'' \<mapsto> Str (image_path p)])"

text \<open>The loop over \<open>places\<close>, with the local \<open>collected_count\<close>.\<close>

fun api_loop :: "web \<Rightarrow> place list \<Rightarrow> int \<Rightarrow> collector \<Rightarrow> collector" where
  "api_loop fetch [] collected s = s"
| "api_loop fetch (p # rest) collected s =
     (if \<not> running p \<or> collected \<ge> num_entries s then s
      else if \<not> has_place_id p then api_loop fetch rest collected s
      else
        (case details p of
           None \<Rightarrow> api_loop fetch rest collected s
         | Some det \<Rightarrow>
             (let data = place_data s fetch p det in
              if should_skip (skip_missing_social s) data
              then api_loop fetch rest collected
                     (s\<lparr>skipped_count := skipped_count s + 1,
                        entry_skipped := entry_skipped s
                          @ [(nat (collected + 1), get data ''name'' (Str ''Unknown''),
                              get data ''address'' (Str ''N/A''))]\<rparr>)
              else api_loop fetch rest (collected + 1)
                     (s\<lparr>data_collected := data_collected s @ [data]\<rparr>))))"

text \<open>\<open>collect_via_api\<close>: \<open>False\<close> without a key or without places.\<close>

definition collect_via_api :: "web \<Rightarrow> place list \<Rightarrow> collector \<Rightarrow> bool \<times> collector" where
  "collect_via_api fetch places s =
     (if \<not> api_key s then (False, s)
      else if places = [] then (False, s)
      else (True, api_loop fetch places 0 s))"

text \<open>
  \<open>run\<close>: the API first when a key is given; otherwise, or when the API gave nothing,
  the search page is loaded, and when no selector finds results the run ends with
  \<open>error_occurred\<close>; else the collection loop runs on the events.  \<open>found_results\<close>
  is false also when the driver or the navigation raises, which ends the run with
  \<open>error_occurred\<close> as well.
\<close>

record world =
  site :: web
  places :: "place list"
  found_results :: bool
  events :: "event list"

definition run :: "collector \<Rightarrow> world \<Rightarrow> collector" where
  "run s w =
     (case (if api_key s then collect_via_api (site w) (places w) s else (False, s)) of
        (True, s') \<Rightarrow> s'\<lparr>finished := True\<rparr>
      | (False, s') \<Rightarrow>
          if \<not> found_results w then s'\<lparr>error_occurred := True\<rparr>
          else self (run_events (events w) (start s')))"

section \<open>The consumer of the stream (add\_real\_time\_data in ui/main\_window.py)\<close>

text \<open>The window keeps the list \<open>collected_data\<close> and the set \<open>unique_entries\<close>; its
  \<open>clean_data_entry\<close> is a copy of the one above.\<close>

record window =
  collected_data :: "entry list"
  unique_entries :: "(string \<times> string) set"

definition clear_data :: window where
  "clear_data = \<lparr>collected_data = [], unique_entries = {}\<rparr>"

definition add_real_time_data :: "window \<Rightarrow> entry \<Rightarrow> error + window" where
  "add_real_time_data w data =
     bind (clean_data_entry data) (\<lambda>cleaned_data.
     bind (unique_key cleaned_data) (\<lambda>k.
       if k \<in> unique_entries w then Inr w
       else Inr (w\<lparr>unique_entries := insert k (unique_entries w),
                   collected_data := collected_data w @ [cleaned_data]\<rparr>)))"

text \<open>The slot called for each record of the stream, in order.\<close>

fun receive :: "window \<Rightarrow> entry list \<Rightarrow> error + window" where
  "receive w [] = Inr w"
| "receive w (data # rest) = bind (add_real_time_data w data) (\<lambda>w'. receive w' rest)"

section \<open>Example runs\<close>

text \<open>A record as \<open>extract_data\<close> returns it, with a website.\<close>

definition shop_record :: "string \<Rightarrow> entry" where
  "shop_record phone =
     [''name'' \<mapsto> Str ''Corner Shop'', ''phone'' \<mapsto> Str phone,
      ''website'' \<mapsto> Str ''https://corner.example'', ''email'' \<mapsto> Str ''N/A'',
      ''instagram'' \<mapsto> Str ''N/A'', ''address'' \<mapsto> Str ''12 Main Street Ikeja Lagos'',
      ''hours'' \<mapsto> Str ''N/A'', ''image_path'' \<mapsto> Str ''N/A'',
      ''products_services'' \<mapsto> Str ''N/A'']"

text \<open>A record without website and Instagram.\<close>

definition bare_record :: entry where
  "bare_record = (shop_record ''N/A'')(''website'' \<mapsto> Str ''N/A'')"

definition good_worker :: "string \<Rightarrow> worker_input" where
  "good_worker phone =
     \<lparr>element = suite_element, click_ok = True, extracted = Some (shop_record phone)\<rparr>"

definition bare_worker :: worker_input where
  "bare_worker = \<lparr>element = suite_element, click_ok = True, extracted = Some bare_record\<rparr>"

text \<open>The browser shows \<open>n\<close> results, all with a website.\<close>

definition good_batch :: "nat \<Rightarrow> batch" where
  "good_batch n =
     \<lparr>results1 = Some n, load_more = False, results2 = None,
      worker_inputs = (\<lambda>i. good_worker (if i = 0 then ''0803 123 4567'' else ''N/A''))\<rparr>"

text \<open>\<open>find_elements\<close> raises.\<close>

definition failing_batch :: batch where
  "failing_batch =
     \<lparr>results1 = None, load_more = False, results2 = None,
      worker_inputs = (\<lambda>i. good_worker ''N/A'')\<rparr>"

definition lagos :: "int \<Rightarrow> bool \<Rightarrow> collector" where
  "lagos n skip = init n skip False (Str ''Nigeria'') (Str ''Ikeja'') (Str ''Lagos'') (Str ''shops'')"

text \<open>A record of the stream: what \<open>handle_data_ready\<close> emits for \<open>shop_record\<close>.\<close>

definition emitted :: "string \<Rightarrow> entry" where
  "emitted phone =
     (shop_record phone)(''country'' \<mapsto> Str ''Nigeria'', ''location'' \<mapsto> Str ''Ikeja'',
        ''state'' \<mapsto> Str ''Lagos'', ''search_query'' \<mapsto> Str ''shops'')"

text \<open>Scenario A: twelve results, all accepted, for a target of ten.\<close>

definition scenario_a :: loop where
  "scenario_a =
     run_events
       [Step (good_batch 12), Step (good_batch 12), Step (good_batch 12), Step (good_batch 12)]
       (start (lagos 10 False))"

text \<open>Three failing batches with a successful batch after the first and after the
  second.\<close>

definition interleaved_errors :: loop where
  "interleaved_errors =
     run_events
       [Step failing_batch, Step (good_batch 12), Step failing_batch, Step (good_batch 12),
        Step failing_batch, Step (good_batch 12)]
       (start (lagos 10 False))"

text \<open>The connection is lost after the first batch.\<close>

definition after_first_batch :: loop where
  "after_first_batch = step (Step (good_batch 12)) (start (lagos 10 False))"

definition disconnected :: loop where
  "disconnected = step (Set_connection_status False) after_first_batch"

definition paused :: loop where
  "paused = step (Step (good_batch 12)) disconnected"

text \<open>A place without a website, and a world in which the browser shows two results.\<close>

definition bare_place :: place where
  "bare_place =
     \<lparr>has_place_id = True, details = Some [''name'' \<mapsto> Str ''Corner Shop''],
      formatted_address = Some (Str ''12 Main Street Ikeja Lagos''), hours_json = ''[]'',
      image_path = ''N/A'', running = True\<rparr>"

definition two_results :: world where
  "two_results =
     \<lparr>site = (\<lambda>u. None), places = [], found_results = True, events = [Step (good_batch 2)]\<rparr>"

section \<open>Auxiliary definitions for the proofs\<close>

text \<open>The handling of the signals of the workers of a batch.\<close>

definition workers :: "batch \<Rightarrow> nat list \<Rightarrow> collector \<Rightarrow> collector" where
  "workers b is s =
     fold (\<lambda>result_index t.
             deliver t (worker_run (skip_missing_social t) result_index (worker_inputs b result_index)))
       is s"

text \<open>Two states of the thread agree on the counters, the emitted signals and the
  parameters of the run.\<close>

definition same_counts :: "collector \<Rightarrow> collector \<Rightarrow> bool" where
  "same_counts s t =
     (collected_count t = collected_count s \<and> data_collected t = data_collected s
      \<and> processed_count t = processed_count s \<and> started t = started s
      \<and> skipped_count t = skipped_count s \<and> entry_skipped t = entry_skipped s
      \<and> num_entries t = num_entries s \<and> max_to_process t = max_to_process s
      \<and> skip_missing_social t = skip_missing_social s)"

text \<open>A record has a website or an Instagram address.\<close>

definition complete :: "entry \<Rightarrow> bool" where
  "complete d = (d ''website'' \<noteq> Some (Str ''N/A'') \<or> d ''instagram'' \<noteq> Some (Str ''N/A''))"

text \<open>A summary of the loop state: accepted, processed, emitted records, consecutive
  errors, and the control point.\<close>

definition counts :: "loop \<Rightarrow> int \<times> int \<times> nat \<times> int \<times> pc" where
  "counts l =
     (collected_count (self l), processed_count (self l), length (data_collected (self l)),
      consecutive_errors l, at l)"

text \<open>A run for \<open>n\<close> entries that is neither stopped nor disconnected.\<close>

definition steady :: "int \<Rightarrow> loop \<Rightarrow> bool" where
  "steady n l =
     (num_entries (self l) = n \<and> max_to_process (self l) = n * 5 \<and> is_running (self l)
      \<and> internet_connected (self l) \<and> \<not> error_occurred (self l))"

text \<open>The keys of the window's list are those of its set, and no key occurs twice.\<close>

definition window_ok :: "window \<Rightarrow> bool" where
  "window_ok w =
     (set (map unique_key (collected_data w)) = Inr ` unique_entries w
      \<and> distinct (map unique_key (collected_data w)))"

text \<open>The cleaned form of the first record of the example stream.\<close>

definition kept :: entry where
  "kept =
     cleaned_of (emitted ''0803 123 4567'') (Str ''Corner Shop'') (Str ''+23408031234567'')
       (Str ''N/A'') (Str ''https://corner.example'') (Str ''N/A'')
       (Str ''12 Main Street Ikeja Lagos'')"

section \<open>Properties of the string operations and of data cleaning\<close>

lemma is_space_sp: "is_space CHR '' ''" by code_simp

lemma split_ws_tokens: "w \<in> set (split_ws s) \<Longrightarrow> w \<noteq> [] \<and> (\<forall>c\<in>set w. \<not> is_space c)"
proof (induction s arbitrary: w rule: split_ws.induct)
  case 1 then show ?case by simp
next
  case (2 c cs)
  show ?case
  proof (cases "is_space c")
    case True with 2 show ?thesis by simp
  next
    case False
    with 2(3) have "w = c # takeWhile (\<lambda>x. \<not> is_space x) cs \<or> w \<in> set (split_ws (dropWhile (\<lambda>x. \<not> is_space x) cs))"
      by simp
    then show ?thesis
    proof
      assume "w = c # takeWhile (\<lambda>x. \<not> is_space x) cs"
      then show ?thesis using False by (auto dest: set_takeWhileD)
    next
      assume "w \<in> set (split_ws (dropWhile (\<lambda>x. \<not> is_space x) cs))"
      then show ?thesis using 2(2)[OF False] by blast
    qed
  qed
qed

lemma split_ws_token_app:
  assumes "w \<noteq> []" "\<forall>c\<in>set w. \<not> is_space c" "r = [] \<or> is_space (hd r)"
  shows "split_ws (w @ r) = w # split_ws r"
proof -
  obtain a u where w: "w = a # u" using assms(1) by (cases w) auto
  have u: "\<forall>c\<in>set u. \<not> is_space c" and a: "\<not> is_space a" using assms(2) w by auto
  have t: "takeWhile (\<lambda>x. \<not> is_space x) (u @ r) = u"
  proof (cases r)
    case Nil then show ?thesis using u by simp
  next
    case (Cons b r') then show ?thesis using u assms(3) by (simp add: takeWhile_append2)
  qed
  have d: "dropWhile (\<lambda>x. \<not> is_space x) (u @ r) = r"
  proof (cases r)
    case Nil then show ?thesis using u by simp
  next
    case (Cons b r') then show ?thesis using u assms(3) by (simp add: dropWhile_append2)
  qed
  show ?thesis using a t d by (simp add: w)
qed

lemma split_ws_join: "\<forall>w\<in>set ws. token w \<Longrightarrow> split_ws (join '' '' ws) = ws"
proof (induction "'' ''" ws rule: join.induct)
  case 1 then show ?case by simp
next
  case (2 w)
  then show ?case using split_ws_token_app[of w "[]"] by (simp add: token_def)
next
  case (3 w v ws)
  have "split_ws (w @ ('' '' @ join '' '' (v # ws))) = w # split_ws ('' '' @ join '' '' (v # ws))"
    using 3(2) by (intro split_ws_token_app) (auto simp: token_def is_space_sp)
  then show ?case using 3 by (simp add: is_space_sp)
qed

lemma rstrip_decomp: "t = rstrip t @ rev (takeWhile is_space (rev t))"
proof -
  have "rev t = takeWhile is_space (rev t) @ dropWhile is_space (rev t)" by simp
  then have "rev (rev t) = rev (takeWhile is_space (rev t) @ dropWhile is_space (rev t))" by simp
  then show ?thesis unfolding rstrip_def by (simp del: takeWhile_dropWhile_id)
qed

lemma strip_fix: "s = [] \<or> (\<not> is_space (hd s) \<and> \<not> is_space (last s)) \<Longrightarrow> strip s = s"
proof (cases s)
  case Nil then show ?thesis by (simp add: strip_def lstrip_def rstrip_def)
next
  case (Cons a u)
  assume "s = [] \<or> (\<not> is_space (hd s) \<and> \<not> is_space (last s))"
  with Cons have h: "\<not> is_space a" and l: "\<not> is_space (last s)" by auto
  have 1: "lstrip s = s" using h Cons by (simp add: lstrip_def)
  have "rev s \<noteq> []" using Cons by simp
  then have "dropWhile is_space (rev s) = rev s" using l
    by (cases "rev s") (auto simp: last_rev)
  then have 2: "rstrip s = s" by (simp add: rstrip_def)
  show ?thesis by (simp add: strip_def 1 2)
qed

lemma strip_props: "strip s = [] \<or> (\<not> is_space (hd (strip s)) \<and> \<not> is_space (last (strip s)))"
proof (cases "strip s = []")
  case True then show ?thesis by simp
next
  case False
  let ?t = "lstrip s"
  have st: "strip s = rstrip ?t" by (simp add: strip_def)
  have tne: "?t \<noteq> []" using False st by (auto simp: rstrip_def)
  have "\<not> is_space (hd ?t)" using tne unfolding lstrip_def by (rule hd_dropWhile)
  moreover have "hd ?t = hd (rstrip ?t)"
    using rstrip_decomp[of ?t] False st by (metis hd_append2)
  moreover have "\<not> is_space (last (rstrip ?t))"
  proof -
    have ne: "dropWhile is_space (rev ?t) \<noteq> []" using False st by (simp add: rstrip_def)
    have "last (rstrip ?t) = hd (dropWhile is_space (rev ?t))"
      unfolding rstrip_def using ne by (simp add: last_rev)
    then show ?thesis using hd_dropWhile[OF ne] by simp
  qed
  ultimately show ?thesis using st by simp
qed

lemma strip_idem: "strip (strip s) = strip s"
  using strip_props by (rule strip_fix)

lemma join_tokens_ends:
  "ws \<noteq> [] \<Longrightarrow> \<forall>w\<in>set ws. token w \<Longrightarrow>
     join '' '' ws \<noteq> [] \<and> hd (join '' '' ws) = hd (hd ws) \<and> last (join '' '' ws) = last (last ws)"
proof (induction "'' ''" ws rule: join.induct)
  case 1 then show ?case by simp
next
  case (2 w) then show ?case by (simp add: token_def)
next
  case (3 w v ws)
  then have "join '' '' (v # ws) \<noteq> []" and "last (join '' '' (v # ws)) = last (last (v # ws))" by auto
  moreover have "w \<noteq> []" using 3(3) by (simp add: token_def)
  ultimately show ?case by simp
qed

lemma strip_join: "\<forall>w\<in>set ws. token w \<Longrightarrow> strip (join '' '' ws) = join '' '' ws"
proof (cases ws)
  case Nil then show ?thesis by (simp add: strip_def lstrip_def rstrip_def)
next
  case (Cons a u)
  assume t: "\<forall>w\<in>set ws. token w"
  have ne: "ws \<noteq> []" using Cons by simp
  have "token (hd ws)" "token (last ws)" using t ne by auto
  then have "\<not> is_space (hd (hd ws))" "\<not> is_space (last (last ws))"
    by (auto simp: token_def)
  then show ?thesis using join_tokens_ends[OF ne t] by (intro strip_fix) simp
qed

lemma normalize_idem:
  "join '' '' (split_ws (strip (join '' '' (split_ws (strip s))))) = join '' '' (split_ws (strip s))"
proof -
  have t: "\<forall>w\<in>set (split_ws (strip s)). token w"
    using split_ws_tokens by (auto simp: token_def)
  show ?thesis by (simp add: strip_join[OF t] split_ws_join[OF t])
qed

lemma clean_spaces_idem: "clean_spaces v = Inr v' \<Longrightarrow> clean_spaces v' = Inr v'"
  by (cases v) (auto simp: clean_spaces_def normalize_idem split: if_splits)

lemma code_char_of: "code (char_of n) = n mod 256"
  by (simp add: code_def)

lemma lower_chr_not_upper: "\<not> is_upper (lower_chr c)"
  by (auto simp: lower_chr_def is_upper_def code_char_of)

lemma lower_chr_idem: "lower_chr (lower_chr c) = lower_chr c"
  using lower_chr_not_upper[of c] by (simp add: lower_chr_def[of "lower_chr c"])

lemma lower_idem: "lower (lower s) = lower s"
  by (simp add: lower_def lower_chr_idem)

lemma is_space_lower_chr: "is_space (lower_chr c) = is_space c"
  by (auto simp: lower_chr_def is_upper_def is_space_def code_char_of)

lemma lstrip_lower: "lstrip (lower s) = lower (lstrip s)"
proof -
  have c: "is_space \<circ> lower_chr = is_space" by (auto simp: is_space_lower_chr)
  show ?thesis by (simp add: lstrip_def lower_def dropWhile_map c)
qed

lemma rstrip_lower: "rstrip (lower s) = lower (rstrip s)"
proof -
  have c: "is_space \<circ> lower_chr = is_space" by (auto simp: is_space_lower_chr)
  have "dropWhile is_space (rev (map lower_chr s)) = map lower_chr (dropWhile is_space (rev s))"
    by (simp add: rev_map dropWhile_map c)
  then show ?thesis by (simp add: rstrip_def lower_def rev_map)
qed

lemma strip_lower: "strip (lower s) = lower (strip s)"
  by (simp add: strip_def lstrip_lower rstrip_lower)

lemma clean_email_idem: "clean_email v = Inr v' \<Longrightarrow> clean_email v' = Inr v'"
  by (cases v) (auto simp: clean_email_def strip_lower strip_idem lower_idem split: if_splits)

lemma phone_chars_idem: "phone_chars (phone_chars s) = phone_chars s"
  by (simp add: phone_chars_def)

lemma phone_chars_prefix: "phone_chars (''+234'' @ s) = ''+234'' @ phone_chars s"
proof -
  have "is_decimal CHR ''2''" "is_decimal CHR ''3''" "is_decimal CHR ''4''" by code_simp+
  then show ?thesis by (simp add: phone_chars_def)
qed

lemma clean_phone_idem: "clean_phone v = Inr v' \<Longrightarrow> clean_phone v' = Inr v'"
proof (cases v)
  case PNone
  assume "clean_phone v = Inr v'" with PNone show ?thesis by (simp add: clean_phone_def)
next
  case (Str s)
  assume a: "clean_phone v = Inr v'"
  let ?p = "phone_chars s"
  show ?thesis
  proof (cases "v = Str ''N/A''")
    case True with a show ?thesis by (simp add: clean_phone_def)
  next
    case False
    show ?thesis
    proof (cases "?p \<noteq> [] \<and> \<not> startswith ?p ''+'' \<and> length ?p \<ge> 10")
      case True
      with a Str False have v': "v' = Str (''+234'' @ ?p)"
        by (auto simp: clean_phone_def Let_def split: if_splits)
      have "phone_chars (''+234'' @ ?p) = ''+234'' @ ?p"
        by (simp only: phone_chars_prefix phone_chars_idem)
      then show ?thesis unfolding v' by (simp add: clean_phone_def Let_def startswith_def)
    next
      case F: False
      with a Str False have v': "v' = Str ?p"
        by (auto simp: clean_phone_def Let_def split: if_splits)
      show ?thesis unfolding v' using F
        by (auto simp: clean_phone_def Let_def phone_chars_idem)
    qed
  qed
qed

lemma strip_prefixed:
  assumes "p \<noteq> []" "\<not> is_space (hd p)" "\<not> is_space (last p)"
    and "t = [] \<or> \<not> is_space (last t)"
  shows "strip (p @ t) = p @ t"
  using assms by (intro strip_fix) (cases t; auto)

lemma strip_last: "strip s = [] \<or> \<not> is_space (last (strip s))"
  using strip_props by blast

lemma clean_website_idem: "clean_website v = Inr v' \<Longrightarrow> clean_website v' = Inr v'"
proof (cases v)
  case PNone
  assume "clean_website v = Inr v'" with PNone show ?thesis by (simp add: clean_website_def)
next
  case (Str s)
  assume a: "clean_website v = Inr v'"
  let ?w = "strip s"
  have sp: "\<not> is_space CHR ''h''" "\<not> is_space CHR ''/''" by code_simp+
  show ?thesis
  proof (cases "v = Str ''N/A''")
    case True with a show ?thesis by (simp add: clean_website_def)
  next
    case False
    show ?thesis
    proof (cases "startswith ?w ''http://'' \<or> startswith ?w ''https://''")
      case True
      with a Str False have v': "v' = Str ?w" by (auto simp: clean_website_def Let_def)
      show ?thesis unfolding v' using True by (auto simp: clean_website_def Let_def strip_idem)
    next
      case F: False
      with a Str False have v': "v' = Str (''https://'' @ ?w)" by (simp add: clean_website_def Let_def)
      have "strip (''https://'' @ ?w) = ''https://'' @ ?w"
        using strip_last[of s] sp by (intro strip_prefixed) auto
      then show ?thesis unfolding v' by (simp add: clean_website_def Let_def startswith_def)
    qed
  qed
qed

lemma last_drop1: "drop 1 s \<noteq> [] \<Longrightarrow> last (drop 1 s) = last s"
  by (cases s) auto

lemma clean_instagram_idem: "clean_instagram v = Inr v' \<Longrightarrow> clean_instagram v' = Inr v'"
proof (cases v)
  case PNone
  assume "clean_instagram v = Inr v'" with PNone show ?thesis by (simp add: clean_instagram_def)
next
  case (Str s)
  assume a: "clean_instagram v = Inr v'"
  let ?w = "strip s"
  have sp: "\<not> is_space CHR ''h''" "\<not> is_space CHR ''/''" by code_simp+
  show ?thesis
  proof (cases "v = Str ''N/A''")
    case True with a show ?thesis by (simp add: clean_instagram_def)
  next
    case False
    show ?thesis
    proof (cases "startswith ?w ''http://'' \<or> startswith ?w ''https://''")
      case True
      with a Str False have v': "v' = Str ?w" by (auto simp: clean_instagram_def Let_def)
      show ?thesis unfolding v' using True by (auto simp: clean_instagram_def Let_def strip_idem)
    next
      case F: False
      define t where "t = (if startswith ?w ''@'' then drop 1 ?w else ?w)"
      from a Str False F have v': "v' = Str (''https://instagram.com/'' @ t)"
        by (auto simp: clean_instagram_def Let_def t_def split: if_splits)
      have "t = [] \<or> \<not> is_space (last t)"
        using strip_last[of s] last_drop1[of ?w] by (auto simp: t_def)
      then have "strip (''https://instagram.com/'' @ t) = ''https://instagram.com/'' @ t"
        using sp by (intro strip_prefixed) auto
      then show ?thesis unfolding v' by (simp add: clean_instagram_def Let_def startswith_def)
    qed
  qed
qed

lemma clean_other_idem: "clean_other (clean_other v) = clean_other v"
  by (cases v) (auto simp: clean_other_def strip_idem)

lemma bind_Inr: "bind r f = Inr y \<Longrightarrow> \<exists>x. r = Inr x \<and> f x = Inr y"
  by (cases r) (auto simp: bind_def)

lemma clean_data_entry_fields:
  assumes "clean_data_entry d = Inr c"
  obtains name phone email website instagram address where
    "clean_spaces (get d ''name'' (Str ''N/A'')) = Inr name"
    "clean_phone (get d ''phone'' (Str ''N/A'')) = Inr phone"
    "clean_email (get d ''email'' (Str ''N/A'')) = Inr email"
    "clean_website (get d ''website'' (Str ''N/A'')) = Inr website"
    "clean_instagram (get d ''instagram'' (Str ''N/A'')) = Inr instagram"
    "clean_spaces (get d ''address'' (Str ''N/A'')) = Inr address"
    "c = cleaned_of d name phone email website instagram address"
  using assms unfolding clean_data_entry_def bind_def by (auto split: sum.splits)

lemma cleaned_of_get:
  "get (cleaned_of d n p e w i a) ''name'' x = n"
  "get (cleaned_of d n p e w i a) ''phone'' x = p"
  "get (cleaned_of d n p e w i a) ''email'' x = e"
  "get (cleaned_of d n p e w i a) ''website'' x = w"
  "get (cleaned_of d n p e w i a) ''instagram'' x = i"
  "get (cleaned_of d n p e w i a) ''address'' x = a"
  by (simp_all add: cleaned_of_def other_fields_def get_def)

lemma cleaned_of_phone: "cleaned_of d n p e w i a ''phone'' = Some p"
  by (simp add: cleaned_of_def other_fields_def)

lemma cleaned_of_other:
  "f \<in> set other_fields \<Longrightarrow>
     get (cleaned_of d n p e w i a) f x = clean_other (get d f (Str ''N/A''))"
  by (auto simp: cleaned_of_def other_fields_def get_def)

lemma fold_upd_cong:
  "(\<And>f. f \<in> set fs \<Longrightarrow> g f = h f) \<Longrightarrow>
    fold (\<lambda>field cleaned. cleaned(field \<mapsto> g field)) fs m
    = fold (\<lambda>field cleaned. cleaned(field \<mapsto> h field)) fs m"
  by (induction fs arbitrary: m) auto

lemma cleaned_of_again:
  "cleaned_of (cleaned_of d n p e w i a) n' p' e' w' i' a' = cleaned_of d n' p' e' w' i' a'"
  unfolding cleaned_of_def[of "cleaned_of d n p e w i a"] cleaned_of_def[of d n' p' e' w' i' a']
  by (rule fold_upd_cong) (simp add: cleaned_of_other clean_other_idem)

lemma clean_data_entry_again:
  assumes "clean_data_entry d = Inr c"
  shows "clean_data_entry c = Inr c"
proof -
  from assms obtain n p e w i a where
    f: "clean_spaces (get d ''name'' (Str ''N/A'')) = Inr n"
    "clean_phone (get d ''phone'' (Str ''N/A'')) = Inr p"
    "clean_email (get d ''email'' (Str ''N/A'')) = Inr e"
    "clean_website (get d ''website'' (Str ''N/A'')) = Inr w"
    "clean_instagram (get d ''instagram'' (Str ''N/A'')) = Inr i"
    "clean_spaces (get d ''address'' (Str ''N/A'')) = Inr a"
    and c: "c = cleaned_of d n p e w i a"
    by (rule clean_data_entry_fields)
  show ?thesis
    unfolding clean_data_entry_def c cleaned_of_get
    by (simp add: bind_def clean_spaces_idem[OF f(1)] clean_phone_idem[OF f(2)]
        clean_email_idem[OF f(3)] clean_website_idem[OF f(4)] clean_instagram_idem[OF f(5)]
        clean_spaces_idem[OF f(6)] cleaned_of_again)
qed

text \<open>
  Claim C8.  When cleaning succeeds on an entry whose phone is a string other than
  \<open>N/A\<close>, let \<open>q\<close> be the phone with every character other than a digit or \<open>+\<close>
  removed.  If \<open>q\<close> does not start with \<open>+\<close> and has at least 10 characters, the cleaned
  phone is \<open>+234\<close> followed by the last 10 characters of \<open>q\<close> when \<open>q\<close> has exactly 10
  characters and by the whole of \<open>q\<close> otherwise.  If \<open>q\<close> has fewer than 10 characters,
  the cleaned phone is \<open>q\<close>, with no country code.
\<close>

theorem clean_data_entry_phone_country_code:
  assumes "clean_data_entry d = Inr c" and "d ''phone'' = Some (Str p)" and "p \<noteq> ''N/A''"
  shows "(\<not> startswith (phone_chars p) ''+'' \<and> 10 \<le> length (phone_chars p) \<longrightarrow>
            c ''phone'' = Some (Str (''+234'' @
              (if length (phone_chars p) = 10
               then drop (length (phone_chars p) - 10) (phone_chars p)
               else phone_chars p))))
       \<and> (length (phone_chars p) < 10 \<longrightarrow> c ''phone'' = Some (Str (phone_chars p)))"
proof -
  from assms(1) obtain n ph e w i a where
    ph: "clean_phone (get d ''phone'' (Str ''N/A'')) = Inr ph"
    and c: "c = cleaned_of d n ph e w i a"
    by (rule clean_data_entry_fields)
  have g: "get d ''phone'' (Str ''N/A'') = Str p" using assms(2) by (simp add: get_def)
  have cp: "c ''phone'' = Some ph" by (simp add: c cleaned_of_phone)
  show ?thesis
    using ph assms(3) unfolding g cp clean_phone_def Let_def
    by (auto split: if_splits)
qed

theorem clean_data_entry_phone_country_code_witness:
  "clean_data_entry phone_entry_long = Inr phone_cleaned_long
   \<and> phone_entry_long ''phone'' = Some (Str ''0803 123 4567'')
   \<and> \<not> startswith (phone_chars ''0803 123 4567'') ''+''
   \<and> 10 \<le> length (phone_chars ''0803 123 4567'')
   \<and> phone_cleaned_long ''phone'' = Some (Str ''+23408031234567'')
   \<and> clean_data_entry phone_entry_short = Inr phone_cleaned_short
   \<and> phone_entry_short ''phone'' = Some (Str ''555-0199'')
   \<and> length (phone_chars ''555-0199'') < 10
   \<and> phone_cleaned_short ''phone'' = Some (Str ''5550199'')"
proof -
  have pc: "phone_chars ''0803 123 4567'' = ''08031234567''" "phone_chars ''555-0199'' = ''5550199''"
    by code_simp+
  have na: "get phone_entry_long k (Str ''N/A'') = (if k = ''phone'' then Str ''0803 123 4567'' else Str ''N/A'')"
    "get phone_entry_short k (Str ''N/A'') = (if k = ''phone'' then Str ''555-0199'' else Str ''N/A'')" for k
    by (simp_all add: get_def phone_entry_long_def phone_entry_short_def)
  have 1: "clean_data_entry phone_entry_long = Inr phone_cleaned_long"
    unfolding clean_data_entry_def na phone_cleaned_long_def
    by (simp add: bind_def clean_spaces_def clean_phone_def clean_email_def clean_website_def
        clean_instagram_def pc startswith_def)
  have 2: "clean_data_entry phone_entry_short = Inr phone_cleaned_short"
    unfolding clean_data_entry_def na phone_cleaned_short_def
    by (simp add: bind_def clean_spaces_def clean_phone_def clean_email_def clean_website_def
        clean_instagram_def pc startswith_def)
  have 3: "phone_entry_long ''phone'' = Some (Str ''0803 123 4567'')"
    "phone_entry_short ''phone'' = Some (Str ''555-0199'')"
    by (simp_all add: phone_entry_long_def phone_entry_short_def)
  show ?thesis
    using clean_data_entry_phone_country_code[OF 1 3(1)]
      clean_data_entry_phone_country_code[OF 2 3(2)] 1 2 3
    by (simp add: pc startswith_def)
qed

text \<open>
  Claim C9.  Cleaning is idempotent: cleaning the result of \<open>clean_data_entry\<close> again
  gives that result, and where the first cleaning raises, so does the composition, with
  the same error.
\<close>

theorem clean_data_entry_idempotent:
  "bind (clean_data_entry d) clean_data_entry = clean_data_entry d"
proof (cases "clean_data_entry d")
  case (Inl e)
  then show ?thesis by (simp add: bind_def)
next
  case (Inr c)
  then show ?thesis using clean_data_entry_again[OF Inr] by (simp add: bind_def)
qed

section \<open>Duplicate removal\<close>

lemma loop_firsts:
  "remove_duplicates_loop seen acc data = Inr out \<Longrightarrow> out = acc @ firsts (Inr ` seen) data"
proof (induction data arbitrary: seen acc)
  case Nil then show ?case by simp
next
  case (Cons x xs)
  from Cons.prems obtain k where k: "unique_key x = Inr k"
    by (cases "unique_key x") auto
  show ?case
  proof (cases "k \<in> seen")
    case True
    with Cons.prems k have "remove_duplicates_loop seen acc xs = Inr out" by simp
    from Cons.IH[OF this] show ?thesis using True k by auto
  next
    case False
    with Cons.prems k have "remove_duplicates_loop (insert k seen) (acc @ [x]) xs = Inr out" by simp
    from Cons.IH[OF this] show ?thesis using False k by auto
  qed
qed

lemma remove_duplicates_firsts: "remove_duplicates data = Inr out \<Longrightarrow> out = firsts {} data"
  using loop_firsts[of "{}" "[]" data out] by (simp add: remove_duplicates_def)

lemma firsts_index:
  "firsts S xs = map ((!) xs)
     (filter (\<lambda>i. unique_key (xs ! i) \<notin> S \<and> (\<forall>j<i. unique_key (xs ! j) \<noteq> unique_key (xs ! i)))
        [0..<length xs])"
proof (induction xs arbitrary: S)
  case Nil then show ?case by simp
next
  case (Cons x xs)
  have upt: "[0..<length (x # xs)] = 0 # map Suc [0..<length xs]"
    by (simp add: upt_conv_Cons map_Suc_upt del: upt_Suc)
  show ?case
  proof (cases "unique_key x \<in> S")
    case True
    have "filter (\<lambda>i. unique_key (xs ! i) \<notin> S \<and> unique_key x \<noteq> unique_key (xs ! i) \<and> (\<forall>j<i. unique_key (xs ! j) \<noteq> unique_key (xs ! i))) [0..<length xs]
      = filter (\<lambda>i. unique_key (xs ! i) \<notin> S \<and> (\<forall>j<i. unique_key (xs ! j) \<noteq> unique_key (xs ! i))) [0..<length xs]"
      using True by (intro filter_cong) auto
    then show ?thesis
      unfolding upt using True Cons.IH[of S]
      by (simp add: filter_map comp_def All_less_Suc2)
  next
    case False
    have "filter (\<lambda>i. unique_key (xs ! i) \<notin> S \<and> unique_key x \<noteq> unique_key (xs ! i) \<and> (\<forall>j<i. unique_key (xs ! j) \<noteq> unique_key (xs ! i))) [0..<length xs]
      = filter (\<lambda>i. unique_key (xs ! i) \<notin> insert (unique_key x) S \<and> (\<forall>j<i. unique_key (xs ! j) \<noteq> unique_key (xs ! i))) [0..<length xs]"
      by (intro filter_cong) auto
    then show ?thesis
      unfolding upt using False Cons.IH[of "insert (unique_key x) S"]
      by (simp add: filter_map comp_def All_less_Suc2)
  qed
qed

lemma firsts_subseq: "subseq (firsts S xs) xs"
  by (induction xs arbitrary: S) auto

lemma firsts_keys: "set (map unique_key (firsts S xs)) \<inter> S = {}"
  by (induction xs arbitrary: S) auto

lemma firsts_distinct: "distinct (map unique_key (firsts S xs))"
proof (induction xs arbitrary: S)
  case Nil then show ?case by simp
next
  case (Cons x xs)
  show ?case using Cons.IH firsts_keys[of "insert (unique_key x) S" xs] by auto
qed

text \<open>\<open>remove_duplicates\<close> returns a list exactly when every item has a string (or no)
  name and address.\<close>

lemma remove_duplicates_loop_returns:
  "(\<forall>x\<in>set data. \<exists>k. unique_key x = Inr k) \<Longrightarrow>
     \<exists>out. remove_duplicates_loop seen acc data = Inr out"
  by (induction data arbitrary: seen acc) auto

lemma example_keys:
  "unique_key shop_a = Inr (''shop a'', ''1 main st'')"
  "unique_key shop_a_again = Inr (''shop a'', ''1 main st'')"
  "unique_key shop_b = Inr (''shop b'', ''2 high st'')"
  by code_simp+

lemma example_remove_duplicates:
  "remove_duplicates [shop_a, shop_b, shop_a_again] = Inr [shop_a, shop_b]"
  by (simp add: remove_duplicates_def example_keys)

text \<open>
  Claim C10.  When \<open>remove_duplicates\<close> returns, its result consists of the items of
  the input at exactly those positions where the key (stripped, lowercased name and
  address) occurs for the first time, in the order of the input; it is a sublist of the
  input, and no two of its items have the same key.
\<close>

theorem remove_duplicates_first_occurrences:
  assumes "remove_duplicates data = Inr out"
  shows "out = map ((!) data)
           (filter (\<lambda>i. \<forall>j<i. unique_key (data ! j) \<noteq> unique_key (data ! i)) [0..<length data])
       \<and> subseq out data
       \<and> distinct (map unique_key out)"
proof -
  have o: "out = firsts {} data" using assms by (rule remove_duplicates_firsts)
  have "out = map ((!) data)
           (filter (\<lambda>i. \<forall>j<i. unique_key (data ! j) \<noteq> unique_key (data ! i)) [0..<length data])"
    unfolding o using firsts_index[of "{}" data] by simp
  moreover have "subseq out data" unfolding o by (rule firsts_subseq)
  moreover have "distinct (map unique_key out)" unfolding o by (rule firsts_distinct)
  ultimately show ?thesis by blast
qed

theorem remove_duplicates_first_occurrences_witness:
  "remove_duplicates [shop_a, shop_b, shop_a_again] = Inr [shop_a, shop_b]
   \<and> [shop_a, shop_b] = map ((!) [shop_a, shop_b, shop_a_again])
        (filter (\<lambda>i. \<forall>j<i. unique_key ([shop_a, shop_b, shop_a_again] ! j)
                          \<noteq> unique_key ([shop_a, shop_b, shop_a_again] ! i))
           [0..<length [shop_a, shop_b, shop_a_again]])
   \<and> subseq [shop_a, shop_b] [shop_a, shop_b, shop_a_again]
   \<and> distinct (map unique_key [shop_a, shop_b])"
  using remove_duplicates_first_occurrences[OF example_remove_duplicates]
    example_remove_duplicates
  by blast

section \<open>Address fallbacks\<close>

lemma address_like_line_Some:
  "address_like_line ls = Some l \<Longrightarrow> has_digit l \<or> 3 < length (split_ws l)"
  by (induction ls) (auto split: if_splits)

lemma fallback_address_filter:
  "fallback_address etext nm = ''N/A'' \<or> has_digit (fallback_address etext nm)
     \<or> 3 < length (split_ws (fallback_address etext nm))"
proof (cases etext)
  case None then show ?thesis by (simp add: fallback_address_def)
next
  case (Some t)
  show ?thesis
  proof (cases "address_like_line (drop 1 (stripped_lines (strip t)))")
    case None
    then show ?thesis using Some by (simp add: fallback_address_def Let_def)
  next
    case (Some l)
    from address_like_line_Some[OF this] show ?thesis
      using Some \<open>etext = Some t\<close> by (auto simp: fallback_address_def Let_def)
  qed
qed

lemma detail_address_loop_filter:
  "detail_address_loop els = ''N/A''
     \<or> (has_digit (detail_address_loop els) \<and> 3 < length (split_ws (detail_address_loop els)))"
  by (induction els rule: detail_address_loop.induct) (auto simp: Let_def)

lemma address_like_line_find: "address_like_line ls = find digit_or_tokens ls"
  by (induction ls) (simp_all add: digit_or_tokens_def)

lemma detail_address_loop_find:
  "detail_address_loop (map Some texts) =
     (case find (\<lambda>t. digit_and_tokens (strip t)) texts of None \<Rightarrow> ''N/A'' | Some t \<Rightarrow> strip t)"
  by (induction texts) (simp_all add: Let_def digit_and_tokens_def)

lemma fallback_address_find:
  assumes "strip t \<noteq> []" "strip t \<noteq> ''Results''" "strip t \<noteq> nm"
  shows "fallback_address (Some t) nm =
     (case find digit_or_tokens (drop 1 (stripped_lines (strip t))) of
        None \<Rightarrow> ''N/A'' | Some line \<Rightarrow> line)"
proof (cases "length (stripped_lines (strip t)) > 1")
  case True
  then show ?thesis using assms
    by (simp add: fallback_address_def Let_def address_like_line_find)
next
  case False
  then have "drop 1 (stripped_lines (strip t)) = []" by simp
  then show ?thesis using assms False by (simp add: fallback_address_def Let_def)
qed

lemma one_test_only:
  assumes "strip l = l" "has_digit l \<noteq> (3 < length (split_ws l))"
  shows "address_like_line [l] = Some l \<and> detail_address_loop [Some l] = ''N/A''"
  using assms by (auto simp: Let_def)

text \<open>
  Claim C6, as the code has it.  On the detail page the free-text fallback returns the
  first text that, stripped, is non-empty, has a digit and has more than three tokens,
  and \<open>N/A\<close> when there is none: a text is accepted only if it passes both tests.
  Before the click, when no address selector gives an address and the text of the
  element is usable, the fallback returns the first line after the first that has a
  digit or has more than three tokens, and \<open>N/A\<close> when there is none: a line is accepted
  if and only if it passes one of the tests and no earlier line does.  The two fallbacks
  do not share one filter: a stripped line that passes exactly one of the two tests is
  accepted before the click and rejected on the detail page.
\<close>

theorem address_fallback_filters:
  "(detail_address_fallback els = ''N/A''
      \<or> (has_digit (detail_address_fallback els)
          \<and> 3 < length (split_ws (detail_address_fallback els))))
   \<and> (select_address (name (extract_info_from_result el)) (address_texts el) = None \<longrightarrow>
        address (extract_info_from_result el) = ''N/A''
        \<or> has_digit (address (extract_info_from_result el))
        \<or> 3 < length (split_ws (address (extract_info_from_result el))))
   \<and> detail_address_fallback (Some (map Some texts)) =
        (case find (\<lambda>t. strip t \<noteq> [] \<and> has_digit (strip t) \<and> 3 < length (split_ws (strip t)))
                texts of
           None \<Rightarrow> ''N/A'' | Some t \<Rightarrow> strip t)
   \<and> (select_address (name (extract_info_from_result el)) (address_texts el) = None
        \<and> element_text el = Some t \<and> strip t \<noteq> [] \<and> strip t \<noteq> ''Results''
        \<and> strip t \<noteq> name (extract_info_from_result el) \<longrightarrow>
        address (extract_info_from_result el) =
          (case find (\<lambda>line. has_digit line \<or> 3 < length (split_ws line))
                  (drop 1 (stripped_lines (strip t))) of
             None \<Rightarrow> ''N/A'' | Some line \<Rightarrow> line))
   \<and> (strip l = l \<and> has_digit l \<noteq> (3 < length (split_ws l)) \<longrightarrow>
        address_like_line [l] = Some l \<and> detail_address_loop [Some l] = ''N/A'')"
proof (intro conjI impI)
  show "detail_address_fallback els = ''N/A''
      \<or> (has_digit (detail_address_fallback els)
          \<and> 3 < length (split_ws (detail_address_fallback els)))"
    using detail_address_loop_filter by (cases els) (auto simp: detail_address_fallback_def)
next
  assume a: "select_address (name (extract_info_from_result el)) (address_texts el) = None"
  define nm where "nm = name (extract_info_from_result el)"
  have "address (extract_info_from_result el) = fallback_address (element_text el) nm"
    using a unfolding nm_def by (simp add: extract_info_from_result_def Let_def)
  then show "address (extract_info_from_result el) = ''N/A''
        \<or> has_digit (address (extract_info_from_result el))
        \<or> 3 < length (split_ws (address (extract_info_from_result el)))"
    using fallback_address_filter[of "element_text el" nm] by simp
next
  have "(\<lambda>t. strip t \<noteq> [] \<and> has_digit (strip t) \<and> 3 < length (split_ws (strip t)))
      = (\<lambda>t. digit_and_tokens (strip t))"
    by (simp add: digit_and_tokens_def fun_eq_iff)
  then show "detail_address_fallback (Some (map Some texts)) =
        (case find (\<lambda>t. strip t \<noteq> [] \<and> has_digit (strip t) \<and> 3 < length (split_ws (strip t)))
                texts of
           None \<Rightarrow> ''N/A'' | Some t \<Rightarrow> strip t)"
    by (simp add: detail_address_fallback_def detail_address_loop_find)
next
  assume a: "select_address (name (extract_info_from_result el)) (address_texts el) = None
        \<and> element_text el = Some t \<and> strip t \<noteq> [] \<and> strip t \<noteq> ''Results''
        \<and> strip t \<noteq> name (extract_info_from_result el)"
  define nm where "nm = name (extract_info_from_result el)"
  have "address (extract_info_from_result el) = fallback_address (element_text el) nm"
    using a unfolding nm_def by (simp add: extract_info_from_result_def Let_def)
  moreover have "fallback_address (Some t) nm =
     (case find digit_or_tokens (drop 1 (stripped_lines (strip t))) of
        None \<Rightarrow> ''N/A'' | Some line \<Rightarrow> line)"
    using a unfolding nm_def by (intro fallback_address_find) simp_all
  moreover have "digit_or_tokens = (\<lambda>line. has_digit line \<or> 3 < length (split_ws line))"
    by (simp add: digit_or_tokens_def fun_eq_iff)
  ultimately show "address (extract_info_from_result el) =
          (case find (\<lambda>line. has_digit line \<or> 3 < length (split_ws line))
                  (drop 1 (stripped_lines (strip t))) of
             None \<Rightarrow> ''N/A'' | Some line \<Rightarrow> line)"
    using a by simp
next
  assume "strip l = l \<and> has_digit l \<noteq> (3 < length (split_ws l))"
  then show "address_like_line [l] = Some l" using one_test_only[of l] by simp
next
  assume "strip l = l \<and> has_digit l \<noteq> (3 < length (split_ws l))"
  then show "detail_address_loop [Some l] = ''N/A''" using one_test_only[of l] by simp
qed

theorem address_fallback_filters_witness:
  "select_address (name (extract_info_from_result market_element)) (address_texts market_element)
     = None
   \<and> element_text market_element
       = Some (''Corner Shop'' @ [CHR 0x0A] @ ''Near the old market square'')
   \<and> strip (''Corner Shop'' @ [CHR 0x0A] @ ''Near the old market square'') \<noteq> []
   \<and> strip (''Corner Shop'' @ [CHR 0x0A] @ ''Near the old market square'') \<noteq> ''Results''
   \<and> strip (''Corner Shop'' @ [CHR 0x0A] @ ''Near the old market square'')
       \<noteq> name (extract_info_from_result market_element)
   \<and> address (extract_info_from_result market_element) = ''Near the old market square''
   \<and> \<not> has_digit ''Near the old market square''
   \<and> 3 < length (split_ws ''Near the old market square'')
   \<and> strip ''Near the old market square'' = ''Near the old market square''
   \<and> address_like_line [''Near the old market square''] = Some ''Near the old market square''
   \<and> detail_address_loop [Some ''Near the old market square''] = ''N/A''
   \<and> select_address (name (extract_info_from_result suite_element)) (address_texts suite_element)
       = None
   \<and> address (extract_info_from_result suite_element) = ''Suite 5''
   \<and> has_digit ''Suite 5'' \<and> \<not> 3 < length (split_ws ''Suite 5'')
   \<and> strip ''Suite 5'' = ''Suite 5''
   \<and> address_like_line [''Suite 5''] = Some ''Suite 5''
   \<and> detail_address_loop [Some ''Suite 5''] = ''N/A''
   \<and> detail_address_fallback (Some (map Some [''Suite 5'', '' 12 Main Street Lagos '']))
       = ''12 Main Street Lagos''"
proof -
  let ?m = "''Corner Shop'' @ [CHR 0x0A] @ ''Near the old market square''"
  have m: "select_address (name (extract_info_from_result market_element))
             (address_texts market_element) = None"
    "element_text market_element = Some ?m"
    "strip ?m \<noteq> []" "strip ?m \<noteq> ''Results''"
    "strip ?m \<noteq> name (extract_info_from_result market_element)"
    by code_simp+
  have f: "(case find (\<lambda>line. has_digit line \<or> 3 < length (split_ws line))
                  (drop 1 (stripped_lines (strip ?m))) of
             None \<Rightarrow> ''N/A'' | Some line \<Rightarrow> line) = ''Near the old market square''"
    by code_simp
  have l: "\<not> has_digit ''Near the old market square''"
    "3 < length (split_ws ''Near the old market square'')"
    "strip ''Near the old market square'' = ''Near the old market square''"
    "has_digit ''Suite 5''" "\<not> 3 < length (split_ws ''Suite 5'')"
    "strip ''Suite 5'' = ''Suite 5''"
    by code_simp+
  have s: "select_address (name (extract_info_from_result suite_element))
             (address_texts suite_element) = None"
    "address (extract_info_from_result suite_element) = ''Suite 5''"
    by code_simp+
  have d: "(case find (\<lambda>t. strip t \<noteq> [] \<and> has_digit (strip t) \<and> 3 < length (split_ws (strip t)))
                [''Suite 5'', '' 12 Main Street Lagos ''] of
           None \<Rightarrow> ''N/A'' | Some t \<Rightarrow> strip t) = ''12 Main Street Lagos''"
    by code_simp
  note T1 = address_fallback_filters[where el = market_element and t = ?m
      and l = "''Near the old market square''"
      and texts = "[''Suite 5'', '' 12 Main Street Lagos '']"]
  note T2 = address_fallback_filters[where l = "''Suite 5''"]
  from T1 m f have a1: "address (extract_info_from_result market_element)
      = ''Near the old market square''"
    by (metis (no_types, lifting))
  from T1 l have a2: "address_like_line [''Near the old market square'']
        = Some ''Near the old market square''
      \<and> detail_address_loop [Some ''Near the old market square''] = ''N/A''"
    by blast
  from T2 l have a3: "address_like_line [''Suite 5''] = Some ''Suite 5''
      \<and> detail_address_loop [Some ''Suite 5''] = ''N/A''"
    by blast
  from T1 d have a4: "detail_address_fallback (Some (map Some [''Suite 5'', '' 12 Main Street Lagos '']))
       = ''12 Main Street Lagos''"
    by (metis (no_types, lifting))
  show ?thesis using m l s a1 a2 a3 a4 by blast
qed

text \<open>
  Claim C6 as stated fails before the click: the line \<open>Suite 5\<close> has a digit and two
  tokens, and the fallback of \<open>extract_info_from_result\<close> accepts it as the address.
\<close>

theorem preclick_fallback_accepts_two_tokens:
  "select_address (name (extract_info_from_result suite_element)) (address_texts suite_element) = None
   \<and> address (extract_info_from_result suite_element) = ''Suite 5''
   \<and> \<not> (has_digit ''Suite 5'' \<and> 3 < length (split_ws ''Suite 5''))"
  by code_simp

section \<open>Email harvesting\<close>

lemma scan_spaced_at: "scan_text ''jane (at) shop.com'' [] = []"
  by code_simp

lemma scan_spaced_a: "scan_text ''jane (a) shop.com'' [] = [''jane@shop.com'']"
  by code_simp

lemma scan_tight_at: "scan_text ''jane(at)shop.com'' [] = [''jane@shop.com'']"
  by code_simp

lemma extract_emails_one_page:
  "extract_emails (one_page url text) url 2 =
     (if scan_text text [] \<noteq> [] then scan_text text [] else [''N/A''])"
  by (simp add: extract_emails_def one_page_def numeral_2_eq_2 Let_def contact_links_def)

text \<open>
  Claim C5 on the code.  For a page whose text is \<open>jane (at) shop.com\<close> no pattern of
  \<open>email_patterns\<close> matches: the pattern for \<open>(at)\<close> allows no whitespace around the
  token.  \<open>extract_emails\<close> returns \<open>["N/A"]\<close>.  Without the spaces the address is
  returned, and so it is with \<open>(a)\<close> in place of \<open>(at)\<close>, whose pattern allows the
  spaces.
\<close>

theorem extract_emails_spaced_at:
  "extract_emails (one_page ''http://shop.com'' ''jane (at) shop.com'') ''http://shop.com'' 2
     = [''N/A'']
   \<and> extract_emails (one_page ''http://shop.com'' ''jane(at)shop.com'') ''http://shop.com'' 2
     = [''jane@shop.com'']
   \<and> extract_emails (one_page ''http://shop.com'' ''jane (a) shop.com'') ''http://shop.com'' 2
     = [''jane@shop.com'']"
proof -
  have "extract_emails (one_page ''http://shop.com'' ''jane (at) shop.com'') ''http://shop.com'' 2
     = [''N/A'']"
    unfolding extract_emails_one_page scan_spaced_at by simp
  moreover
  have "extract_emails (one_page ''http://shop.com'' ''jane(at)shop.com'') ''http://shop.com'' 2
     = [''jane@shop.com'']"
    unfolding extract_emails_one_page scan_tight_at by simp
  moreover
  have "extract_emails (one_page ''http://shop.com'' ''jane (a) shop.com'') ''http://shop.com'' 2
     = [''jane@shop.com'']"
    unfolding extract_emails_one_page scan_spaced_a by simp
  ultimately show ?thesis by blast
qed

section \<open>The collection loop\<close>

lemma deliver_frame:
  "num_entries (deliver s out) = num_entries s"
  "max_to_process (deliver s out) = max_to_process s"
  "processed_count (deliver s out) = processed_count s"
  "skip_missing_social (deliver s out) = skip_missing_social s"
  "is_running (deliver s out) = is_running s"
  "internet_connected (deliver s out) = internet_connected s"
  "started (deliver s out) = started s"
  "finished (deliver s out) = finished s"
  "error_occurred (deliver s out) = error_occurred s"
  by (cases out; simp add: deliver_def handle_data_ready_def handle_entry_skipped_def
        handle_worker_error_def)+

lemma deliver_grows:
  "collected_count s \<le> collected_count (deliver s out)"
  "prefix (data_collected s) (data_collected (deliver s out))"
  by (cases out; simp add: deliver_def handle_data_ready_def handle_entry_skipped_def
        handle_worker_error_def)+

lemma deliver_count:
  "collected_count (deliver s out) = collected_count s + int (length (data_collected (deliver s out))) - int (length (data_collected s))"
  by (cases out; simp add: deliver_def handle_data_ready_def handle_entry_skipped_def
        handle_worker_error_def)

lemma workers_frame:
  "num_entries (workers b is s) = num_entries s"
  "max_to_process (workers b is s) = max_to_process s"
  "processed_count (workers b is s) = processed_count s"
  "skip_missing_social (workers b is s) = skip_missing_social s"
  "is_running (workers b is s) = is_running s"
  "internet_connected (workers b is s) = internet_connected s"
  "started (workers b is s) = started s"
  "finished (workers b is s) = finished s"
  "error_occurred (workers b is s) = error_occurred s"
  by (induction "is" arbitrary: s; simp add: workers_def deliver_frame)+

lemma workers_grows:
  "collected_count s \<le> collected_count (workers b is s)
   \<and> prefix (data_collected s) (data_collected (workers b is s))"
proof (induction "is" arbitrary: s)
  case Nil then show ?case by (simp add: workers_def)
next
  case (Cons i "is")
  let ?t = "deliver s (worker_run (skip_missing_social s) i (worker_inputs b i))"
  have "workers b (i # is) s = workers b is ?t" by (simp add: workers_def)
  then show ?case using Cons[of ?t] deliver_grows[of s] by (auto intro: order_trans prefix_order.order_trans)
qed

lemma dispatch_self:
  "self (dispatch l b n) =
     (if batch_size (self l) n \<le> 0 then (self l)\<lparr>finished := True\<rparr>
      else (workers b (batch_indices (self l) n) ((self l)\<lparr>started := started (self l) @ batch_indices (self l) n\<rparr>))
             \<lparr>processed_count := processed_count (self l) + batch_size (self l) n\<rparr>)"
  by (simp add: dispatch_def Let_def leave_def workers_def[symmetric] workers_frame)

lemma same_counts_simps:
  "same_counts s s"
  "same_counts s (s\<lparr>finished := f\<rparr>)"
  "same_counts s (s\<lparr>is_paused := p\<rparr>)"
  "same_counts s (s\<lparr>internet_connected := c\<rparr>)"
  "same_counts s (s\<lparr>is_running := r\<rparr>)"
  by (simp_all add: same_counts_def)

lemma loop_head_cases:
  "same_counts (self l) (self (loop_head l b))
   \<or> (\<exists>n. loop_head l b = dispatch l b n \<and> loop_condition l \<and> internet_connected (self l))"
proof (cases "loop_condition l")
  case False
  then have "loop_head l b = leave l" by (simp add: loop_head_def Let_def)
  then show ?thesis by (simp add: leave_def same_counts_simps)
next
  case g: True
  show ?thesis
  proof (cases "internet_connected (self l)")
    case False
    then have "loop_head l b = l\<lparr>self := (self l)\<lparr>is_paused := True\<rparr>, at := Waiting\<rparr>"
      using g by (simp add: loop_head_def Let_def)
    then show ?thesis by (simp add: same_counts_simps)
  next
    case c: True
    have d: "loop_head l b = dispatch l b n \<Longrightarrow> ?thesis" for n using g c by blast
    have e: "loop_head l b = l\<lparr>consecutive_errors := consecutive_errors l + 1\<rparr> \<Longrightarrow> ?thesis"
      by (simp add: same_counts_simps)
    have v: "loop_head l b = leave l \<Longrightarrow> ?thesis"
      by (simp add: leave_def same_counts_simps)
    show ?thesis
    proof (cases "results1 b")
      case None
      then show ?thesis using g c by (intro e) (simp add: loop_head_def Let_def)
    next
      case (Some n)
      show ?thesis
      proof (cases "int n \<le> processed_count (self l)")
        case False
        then show ?thesis using g c Some by (intro d[of n]) (simp add: loop_head_def Let_def)
      next
        case n: True
        show ?thesis
        proof (cases "load_more b")
          case False
          then show ?thesis using g c Some n by (intro v) (simp add: loop_head_def Let_def)
        next
          case m: True
          show ?thesis
          proof (cases "results2 b")
            case None
            then show ?thesis using g c Some n m by (intro e) (simp add: loop_head_def Let_def)
          next
            case s2: (Some n2)
            show ?thesis
            proof (cases "int n2 \<le> processed_count (self l)")
              case True
              then show ?thesis using g c Some n m s2 by (intro v) (simp add: loop_head_def Let_def)
            next
              case False
              then show ?thesis using g c Some n m s2
                by (intro d[of n2]) (simp add: loop_head_def Let_def)
            qed
          qed
        qed
      qed
    qed
  qed
qed

lemma waiting_same: "same_counts (self l) (self (waiting l))"
  by (simp add: waiting_def Let_def leave_def same_counts_simps)

lemma step_cases:
  "same_counts (self l) (self (step e l))
   \<or> (\<exists>b n. e = Step b \<and> at l = Loop_head \<and> step e l = dispatch l b n
          \<and> loop_condition l \<and> internet_connected (self l))"
proof (cases e)
  case (Step b)
  show ?thesis
  proof (cases "at l")
    case Loop_head
    then show ?thesis using Step loop_head_cases[of l b] by auto
  next
    case Waiting
    then show ?thesis using Step waiting_same[of l] by simp
  next
    case After_loop
    then show ?thesis using Step by (simp add: same_counts_simps)
  qed
qed (simp_all add: same_counts_simps)

lemma dispatch_grows:
  "collected_count (self l) \<le> collected_count (self (dispatch l b n))
   \<and> prefix (data_collected (self l)) (data_collected (self (dispatch l b n)))"
  using workers_grows[of "(self l)\<lparr>started := started (self l) @ batch_indices (self l) n\<rparr>" b "batch_indices (self l) n"]
  by (simp add: dispatch_self)

lemma dispatch_frame:
  "num_entries (self (dispatch l b n)) = num_entries (self l)"
  "max_to_process (self (dispatch l b n)) = max_to_process (self l)"
  "skip_missing_social (self (dispatch l b n)) = skip_missing_social (self l)"
  by (simp_all add: dispatch_self workers_frame)

lemma step_grows:
  "collected_count (self l) \<le> collected_count (self (step e l))
   \<and> prefix (data_collected (self l)) (data_collected (self (step e l)))"
  using step_cases[of l e] dispatch_grows[of l] by (auto simp: same_counts_def)

lemma run_events_grows:
  "collected_count (self l) \<le> collected_count (self (run_events evs l))
   \<and> prefix (data_collected (self l)) (data_collected (self (run_events evs l)))"
proof (induction evs arbitrary: l)
  case Nil then show ?case by (simp add: run_events_def)
next
  case (Cons e evs)
  have "run_events (e # evs) l = run_events evs (step e l)" by (simp add: run_events_def)
  then show ?case using Cons[of "step e l"] step_grows[of l e]
    by (auto intro: order_trans prefix_order.order_trans)
qed

lemma paused_no_dispatch:
  assumes "\<not> internet_connected (self l)"
  shows "started (self (step (Step b) l)) = started (self l)
       \<and> processed_count (self (step (Step b) l)) = processed_count (self l)
       \<and> collected_count (self (step (Step b) l)) = collected_count (self l)
       \<and> data_collected (self (step (Step b) l)) = data_collected (self l)"
  using assms by (cases "at l") (simp_all add: loop_head_def waiting_def leave_def Let_def)

lemma waiting_stays:
  "at l = Waiting \<Longrightarrow> \<not> internet_connected (self l) \<Longrightarrow> is_running (self l) \<Longrightarrow>
     step (Step b) l = l"
  by (simp add: waiting_def)

lemma waiting_resumes:
  "at l = Waiting \<Longrightarrow> is_running (self l) \<Longrightarrow>
     at (step (Step b) (step (Set_connection_status True) l)) = Loop_head
     \<and> \<not> is_paused (self (step (Step b) (step (Set_connection_status True) l)))
     \<and> data_collected (self (step (Step b) (step (Set_connection_status True) l))) = data_collected (self l)
     \<and> collected_count (self (step (Step b) (step (Set_connection_status True) l))) = collected_count (self l)"
  by (simp add: waiting_def)

lemma batch_size_pos:
  "processed_count s < int n \<Longrightarrow> processed_count s < max_to_process s \<Longrightarrow> 0 < batch_size s n"
  by (simp add: batch_size_def)

lemma batch_indices_length: "length (batch_indices s n) = nat (batch_size s n)"
  by (simp add: batch_indices_def)

lemma connected_dispatches:
  assumes "at l = Loop_head" "internet_connected (self l)" "loop_condition l"
    "results1 b = Some n" "processed_count (self l) < int n"
  shows "started (self (step (Step b) l)) = started (self l) @ batch_indices (self l) n
       \<and> batch_indices (self l) n \<noteq> []
       \<and> processed_count (self (step (Step b) l)) = processed_count (self l) + batch_size (self l) n"
proof -
  have p: "0 < batch_size (self l) n"
    using assms(5,3) by (intro batch_size_pos) (simp_all add: loop_condition_def)
  then have ne: "batch_indices (self l) n \<noteq> []"
    using batch_indices_length[of "self l" n] by auto
  have "step (Step b) l = dispatch l b n"
    using assms by (simp add: loop_head_def Let_def)
  then show ?thesis using p ne by (simp add: dispatch_self workers_frame)
qed

lemma failed_batch_keeps_processed:
  "at l = Loop_head \<Longrightarrow> results1 b = None \<Longrightarrow>
     processed_count (self (step (Step b) l)) = processed_count (self l)
     \<and> data_collected (self (step (Step b) l)) = data_collected (self l)"
  by (simp add: loop_head_def Let_def leave_def)

lemma step_frame:
  "num_entries (self (step e l)) = num_entries (self l)
   \<and> max_to_process (self (step e l)) = max_to_process (self l)
   \<and> skip_missing_social (self (step e l)) = skip_missing_social (self l)"
  using step_cases[of l e] dispatch_frame[of l] by (auto simp: same_counts_def)

lemma step_processed_bound:
  assumes "processed_count (self l) \<le> max_to_process (self l)"
  shows "processed_count (self (step e l)) \<le> max_to_process (self (step e l))"
proof -
  have "processed_count (self (dispatch l b n)) \<le> max_to_process (self (dispatch l b n))" for b n
    using assms by (auto simp: dispatch_self workers_frame batch_size_def min_def)
  then show ?thesis using step_cases[of l e] assms by (auto simp: same_counts_def)
qed

lemma run_events_processed_bound:
  "processed_count (self l) \<le> max_to_process (self l) \<Longrightarrow>
     processed_count (self (run_events evs l)) \<le> max_to_process (self (run_events evs l))"
proof (induction evs arbitrary: l)
  case Nil then show ?case by (simp add: run_events_def)
next
  case (Cons e evs)
  have "run_events (e # evs) l = run_events evs (step e l)" by (simp add: run_events_def)
  then show ?case using Cons.IH[OF step_processed_bound[OF Cons.prems]] by simp
qed

text \<open>From the start of a run for a target \<open>n \<ge> 0\<close> the processed candidates stay
  within \<open>max_to_process\<close>.\<close>

lemma run_processed_bound:
  assumes "0 \<le> n"
  shows "processed_count (self (run_events evs (start (init n skip key ctry loc st query))))
           \<le> n * 5"
proof -
  let ?l = "start (init n skip key ctry loc st query)"
  have p: "processed_count (self ?l) \<le> max_to_process (self ?l)"
    using assms by (simp add: start_def init_def)
  have f: "max_to_process (self (run_events evs l)) = max_to_process (self l)" for l
  proof (induction evs arbitrary: l)
    case Nil then show ?case by (simp add: run_events_def)
  next
    case (Cons e evs)
    have "run_events (e # evs) l = run_events evs (step e l)" by (simp add: run_events_def)
    then show ?case using Cons[of "step e l"] step_frame[of e l] by simp
  qed
  have "max_to_process (self ?l) = n * 5" by (simp add: start_def init_def)
  then show ?thesis using run_events_processed_bound[OF p, of evs] f[of ?l] by simp
qed

section \<open>The completeness policy\<close>

lemma complete_iff: "complete d = (\<not> should_skip True d)"
  by (auto simp: complete_def should_skip_def)

lemma worker_run_complete:
  "worker_run True i w = Data_ready d \<Longrightarrow> complete d"
  unfolding worker_run_def Let_def complete_iff
  by (auto split: if_splits option.splits)

lemma worker_run_skips:
  assumes "click_ok w" "extracted w = Some d" "d \<noteq> Map.empty"
    "d ''website'' = Some (Str ''N/A'')" "d ''instagram'' = Some (Str ''N/A'')"
  shows "\<exists>n a. worker_run True i w = Skipped (i + 1) n a"
  using assms unfolding worker_run_def Let_def should_skip_def by simp

lemma handle_data_ready_complete:
  "complete d \<Longrightarrow> \<forall>x\<in>set (data_collected s). complete x \<Longrightarrow>
     \<forall>x\<in>set (data_collected (handle_data_ready s d)). complete x"
  by (auto simp: handle_data_ready_def tagged_def complete_def)

lemma deliver_complete:
  assumes "skip_missing_social s" "\<forall>x\<in>set (data_collected s). complete x"
  shows "\<forall>x\<in>set (data_collected (deliver s (worker_run (skip_missing_social s) i w))). complete x"
proof (cases "worker_run True i w")
  case (Data_ready d)
  then show ?thesis using assms worker_run_complete[OF Data_ready] handle_data_ready_complete[of d s]
    by (simp add: deliver_def)
next
  case (Skipped i n a)
  then show ?thesis using assms by (simp add: deliver_def handle_entry_skipped_def)
next
  case (Failed i)
  then show ?thesis using assms by (simp add: deliver_def handle_worker_error_def)
qed

lemma workers_complete:
  "skip_missing_social s \<Longrightarrow> \<forall>x\<in>set (data_collected s). complete x \<Longrightarrow>
     \<forall>x\<in>set (data_collected (workers b is s)). complete x"
proof (induction "is" arbitrary: s)
  case Nil then show ?case by (simp add: workers_def)
next
  case (Cons i "is")
  let ?t = "deliver s (worker_run (skip_missing_social s) i (worker_inputs b i))"
  have w: "workers b (i # is) s = workers b is ?t" by (simp add: workers_def)
  have "skip_missing_social ?t" using Cons.prems(1) by (simp add: deliver_frame)
  moreover have "\<forall>x\<in>set (data_collected ?t). complete x"
    using deliver_complete[OF Cons.prems] .
  ultimately show ?case unfolding w by (rule Cons.IH)
qed

lemma step_complete:
  assumes "skip_missing_social (self l)" "\<forall>x\<in>set (data_collected (self l)). complete x"
  shows "\<forall>x\<in>set (data_collected (self (step e l))). complete x"
proof -
  have "\<forall>x\<in>set (data_collected (self (dispatch l b n))). complete x" for b n
    using assms
      workers_complete[of "(self l)\<lparr>started := started (self l) @ batch_indices (self l) n\<rparr>" b "batch_indices (self l) n"]
    by (simp add: dispatch_self)
  then show ?thesis using step_cases[of l e] assms by (auto simp: same_counts_def)
qed

lemma run_events_complete:
  "skip_missing_social (self l) \<Longrightarrow> \<forall>x\<in>set (data_collected (self l)). complete x \<Longrightarrow>
     \<forall>x\<in>set (data_collected (self (run_events evs l))). complete x"
proof (induction evs arbitrary: l)
  case Nil then show ?case by (simp add: run_events_def)
next
  case (Cons e evs)
  have r: "run_events (e # evs) l = run_events evs (step e l)" by (simp add: run_events_def)
  have "skip_missing_social (self (step e l))" using Cons.prems(1) step_frame[of e l] by simp
  moreover have "\<forall>x\<in>set (data_collected (self (step e l))). complete x"
    using Cons.prems by (rule step_complete)
  ultimately show ?case unfolding r by (rule Cons.IH)
qed

lemma api_loop_frame: "skip_missing_social (api_loop fetch ps c s) = skip_missing_social s"
  by (induction fetch ps c s rule: api_loop.induct) (auto simp: Let_def split: option.splits)

lemma api_loop_complete:
  "skip_missing_social s \<Longrightarrow> \<forall>x\<in>set (data_collected s). complete x \<Longrightarrow>
     \<forall>x\<in>set (data_collected (api_loop fetch ps c s)). complete x"
proof (induction ps arbitrary: c s)
  case Nil
  then show ?case by simp
next
  case (Cons p rest)
  note skip = Cons.prems(1) and inv = Cons.prems(2)
  show ?case
  proof (cases "\<not> running p \<or> c \<ge> num_entries s")
    case True then show ?thesis using inv by simp
  next
    case go: False
    show ?thesis
    proof (cases "has_place_id p")
      case False
      then have "api_loop fetch (p # rest) c s = api_loop fetch rest c s" using go by simp
      then show ?thesis using Cons.IH[OF skip inv] by simp
    next
      case pid: True
      show ?thesis
      proof (cases "details p")
        case None
        then have "api_loop fetch (p # rest) c s = api_loop fetch rest c s" using go pid by simp
        then show ?thesis using Cons.IH[OF skip inv] by simp
      next
        case (Some det)
        let ?data = "place_data s fetch p det"
        show ?thesis
        proof (cases "should_skip (skip_missing_social s) ?data")
          case True
          let ?t = "s\<lparr>skipped_count := skipped_count s + 1,
                        entry_skipped := entry_skipped s
                          @ [(nat (c + 1), get ?data ''name'' (Str ''Unknown''),
                              get ?data ''address'' (Str ''N/A''))]\<rparr>"
          have eq: "api_loop fetch (p # rest) c s = api_loop fetch rest c ?t"
            using go pid Some True by (simp add: Let_def)
          have s1: "skip_missing_social ?t" using skip by simp
          have s2: "\<forall>x\<in>set (data_collected ?t). complete x" using inv by simp
          show ?thesis unfolding eq using s1 s2 by (rule Cons.IH)
        next
          case False
          let ?t = "s\<lparr>data_collected := data_collected s @ [?data]\<rparr>"
          have eq: "api_loop fetch (p # rest) c s = api_loop fetch rest (c + 1) ?t"
            using go pid Some False by (simp add: Let_def)
          have s1: "skip_missing_social ?t" using skip by simp
          have "complete ?data" using False skip by (simp add: complete_iff)
          then have s2: "\<forall>x\<in>set (data_collected ?t). complete x" using inv by simp
          show ?thesis unfolding eq using s1 s2 by (rule Cons.IH)
        qed
      qed
    qed
  qed
qed

lemma api_skips:
  assumes "skip_missing_social s" "running p" "collected < num_entries s" "has_place_id p"
    "details p = Some det" "get det ''website'' (Str ''N/A'') = Str ''N/A''"
  shows "api_loop fetch [p] collected s =
           s\<lparr>skipped_count := skipped_count s + 1,
             entry_skipped := entry_skipped s
               @ [(nat (collected + 1), get det ''name'' (Str ''N/A''),
                   (case formatted_address p of None \<Rightarrow> Str ''N/A'' | Some a \<Rightarrow> a))]\<rparr>"
  using assms by (simp add: place_data_def Let_def get_def should_skip_def)

lemma run_cases:
  "run s w = (api_loop (site w) (places w) 0 s)\<lparr>finished := True\<rparr>
   \<or> run s w = s\<lparr>error_occurred := True\<rparr>
   \<or> run s w = self (run_events (events w) (start s))"
proof (cases "api_key s \<and> places w \<noteq> []")
  case True
  then have "run s w = (api_loop (site w) (places w) 0 s)\<lparr>finished := True\<rparr>"
    by (simp add: run_def collect_via_api_def)
  then show ?thesis by blast
next
  case False
  then have c: "(if api_key s then collect_via_api (site w) (places w) s else (False, s)) = (False, s)"
    by (auto simp: collect_via_api_def)
  show ?thesis
  proof (cases "found_results w")
    case True
    then have "run s w = self (run_events (events w) (start s))"
      unfolding run_def c by simp
    then show ?thesis by blast
  next
    case False
    then have "run s w = s\<lparr>error_occurred := True\<rparr>"
      unfolding run_def c by simp
    then show ?thesis by blast
  qed
qed

lemma run_complete:
  assumes "skip_missing_social s" "data_collected s = []"
  shows "\<forall>x\<in>set (data_collected (run s w)). complete x"
proof -
  have e: "\<forall>x\<in>set (data_collected s). complete x" using assms(2) by simp
  have a: "\<forall>x\<in>set (data_collected (api_loop (site w) (places w) 0 s)). complete x"
    using assms(1) e by (rule api_loop_complete)
  have "skip_missing_social (self (start s))" "\<forall>x\<in>set (data_collected (self (start s))). complete x"
    using assms(1) e by (simp_all add: start_def)
  then have l: "\<forall>x\<in>set (data_collected (self (run_events (events w) (start s)))). complete x"
    by (rule run_events_complete)
  from run_cases[of s w] show ?thesis
  proof (elim disjE)
    assume "run s w = (api_loop (site w) (places w) 0 s)\<lparr>finished := True\<rparr>"
    then show ?thesis using a by simp
  next
    assume "run s w = s\<lparr>error_occurred := True\<rparr>"
    then show ?thesis using e by simp
  next
    assume "run s w = self (run_events (events w) (start s))"
    then show ?thesis using l by simp
  qed
qed

section \<open>Steps of the example batches\<close>

lemma shop_record_nonempty: "shop_record ph \<noteq> Map.empty"
  by (simp add: shop_record_def)

lemma good_worker_ready: "worker_run skip i (good_worker ph) = Data_ready (shop_record ph)"
  by (simp add: worker_run_def good_worker_def Let_def shop_record_nonempty should_skip_def falsy_def)
    (simp add: shop_record_def)

lemma tagged_frame:
  "tagged (s\<lparr>data_collected := x, collected_count := y\<rparr>) = tagged s"
  "tagged (s\<lparr>started := z\<rparr>) = tagged s"
  by (simp_all add: tagged_def fun_eq_iff)

lemma workers_all_ready:
  assumes "\<And>i. i \<in> set is \<Longrightarrow>
    worker_run (skip_missing_social s) i (worker_inputs b i) = Data_ready (d i)"
  shows "workers b is s =
    s\<lparr>data_collected := data_collected s @ map (\<lambda>i. tagged s (d i)) is,
      collected_count := collected_count s + int (length is)\<rparr>"
  using assms
proof (induction "is" arbitrary: s)
  case Nil then show ?case by (simp add: workers_def)
next
  case (Cons i "is")
  let ?t = "s\<lparr>data_collected := data_collected s @ [tagged s (d i)],
                   collected_count := collected_count s + 1\<rparr>"
  have t: "deliver s (worker_run (skip_missing_social s) i (worker_inputs b i)) = ?t"
    using Cons.prems[of i] by (simp add: deliver_def handle_data_ready_def)
  have w: "workers b (i # is) s = workers b is ?t" by (simp add: workers_def t)
  have "workers b is ?t =
     ?t\<lparr>data_collected := data_collected ?t @ map (\<lambda>i. tagged ?t (d i)) is,
        collected_count := collected_count ?t + int (length is)\<rparr>"
    using Cons.prems by (intro Cons.IH) simp
  then show ?case unfolding w by (simp add: tagged_frame)
qed

lemma good_step:
  assumes "at l = Loop_head" "loop_condition l" "internet_connected (self l)"
    "processed_count (self l) < int n"
  shows "step (Step (good_batch n)) l =
     l\<lparr>self := (self l)
        \<lparr>started := started (self l) @ batch_indices (self l) n,
         data_collected := data_collected (self l)
           @ map (\<lambda>i. tagged (self l) (shop_record (if i = 0 then ''0803 123 4567'' else ''N/A'')))
               (batch_indices (self l) n),
         collected_count := collected_count (self l) + batch_size (self l) n,
         processed_count := processed_count (self l) + batch_size (self l) n\<rparr>\<rparr>"
proof -
  let ?s = "(self l)\<lparr>started := started (self l) @ batch_indices (self l) n\<rparr>"
  have p: "0 < batch_size (self l) n"
    using assms(4,2) by (intro batch_size_pos) (simp_all add: loop_condition_def)
  have s: "step (Step (good_batch n)) l = dispatch l (good_batch n) n"
    using assms by (simp add: loop_head_def Let_def good_batch_def)
  have w: "workers (good_batch n) (batch_indices (self l) n) ?s =
    ?s\<lparr>data_collected := data_collected ?s
          @ map (\<lambda>i. tagged ?s (shop_record (if i = 0 then ''0803 123 4567'' else ''N/A'')))
              (batch_indices (self l) n),
       collected_count := collected_count ?s + int (length (batch_indices (self l) n))\<rparr>"
    by (rule workers_all_ready) (simp add: good_batch_def good_worker_ready)
  have d: "dispatch l (good_batch n) n =
     l\<lparr>self := (workers (good_batch n) (batch_indices (self l) n) ?s)
        \<lparr>processed_count := processed_count (self l) + batch_size (self l) n\<rparr>\<rparr>"
    using p by (simp add: dispatch_def Let_def workers_def[symmetric] workers_frame)
  show ?thesis unfolding s d w using p
    by (simp add: batch_indices_length tagged_frame)
qed

lemma failing_step:
  assumes "at l = Loop_head" "loop_condition l" "internet_connected (self l)"
  shows "step (Step failing_batch) l = l\<lparr>consecutive_errors := consecutive_errors l + 1\<rparr>"
  using assms by (simp add: loop_head_def Let_def failing_batch_def)

lemma leaving_step:
  assumes "at l = Loop_head" "\<not> loop_condition l"
  shows "step (Step b) l = leave l"
  using assms by (simp add: loop_head_def Let_def)

section \<open>Example runs\<close>

lemma start_counts:
  "steady n (start (lagos n k))"
  "counts (start (lagos n k)) = (0, 0, 0, 0, Loop_head)"
  by (simp_all add: start_def lagos_def init_def steady_def counts_def)

lemma good_step_counts:
  assumes "steady N l" "counts l = (c, p, k, e, Loop_head)"
    "c < N" "p < N * 5" "e < 3" "p < int n"
  shows "steady N (step (Step (good_batch n)) l)
       \<and> counts (step (Step (good_batch n)) l)
           = (c + min 4 (min (int n - p) (N * 5 - p)), p + min 4 (min (int n - p) (N * 5 - p)),
              k + nat (min 4 (min (int n - p) (N * 5 - p))), e, Loop_head)"
proof -
  have a: "at l = Loop_head" "loop_condition l" "internet_connected (self l)"
    "processed_count (self l) < int n"
    using assms by (simp_all add: steady_def counts_def loop_condition_def)
  have b: "batch_size (self l) n = min 4 (min (int n - p) (N * 5 - p))"
    using assms(1,2) by (simp add: batch_size_def steady_def counts_def)
  show ?thesis
    unfolding good_step[OF a] using assms(1,2) b
    by (simp add: steady_def counts_def batch_indices_length)
qed

lemma failing_step_counts:
  assumes "steady N l" "counts l = (c, p, k, e, Loop_head)" "c < N" "p < N * 5" "e < 3"
  shows "steady N (step (Step failing_batch) l)
       \<and> counts (step (Step failing_batch) l) = (c, p, k, e + 1, Loop_head)"
proof -
  have a: "at l = Loop_head" "loop_condition l" "internet_connected (self l)"
    using assms by (simp_all add: steady_def counts_def loop_condition_def)
  show ?thesis
    unfolding failing_step[OF a] using assms(1,2) by (simp add: steady_def counts_def)
qed

lemma leaving_step_counts:
  assumes "steady N l" "counts l = (c, p, k, e, Loop_head)" "\<not> (c < N \<and> p < N * 5 \<and> e < 3)"
  shows "steady N (step (Step b) l)
       \<and> counts (step (Step b) l) = (c, p, k, e, After_loop)
       \<and> finished (self (step (Step b) l))"
proof -
  have a: "at l = Loop_head" "\<not> loop_condition l"
    using assms by (auto simp: steady_def counts_def loop_condition_def)
  show ?thesis
    unfolding leaving_step[OF a] using assms(1,2) by (simp add: steady_def counts_def leave_def)
qed

lemma run_events_Cons: "run_events (e # evs) l = run_events evs (step e l)"
  by (simp add: run_events_def)

lemma run_events_Nil: "run_events [] l = l"
  by (simp add: run_events_def)

lemma scenario_a_counts:
  "counts (run_events
      [Step (good_batch 12), Step (good_batch 12), Step (good_batch 12), Step (good_batch 12)]
      (start (lagos 10 False))) = (12, 12, 12, 0, After_loop)
   \<and> num_entries (self (run_events
      [Step (good_batch 12), Step (good_batch 12), Step (good_batch 12), Step (good_batch 12)]
      (start (lagos 10 False)))) = 10"
proof -
  let ?l0 = "start (lagos 10 False)"
  let ?l1 = "step (Step (good_batch 12)) ?l0"
  let ?l2 = "step (Step (good_batch 12)) ?l1"
  let ?l3 = "step (Step (good_batch 12)) ?l2"
  let ?l4 = "step (Step (good_batch 12)) ?l3"
  have 1: "steady 10 ?l1 \<and> counts ?l1 = (4, 4, 4, 0, Loop_head)"
    using good_step_counts[OF start_counts, of 10 12 False] by simp
  have 2: "steady 10 ?l2 \<and> counts ?l2 = (8, 8, 8, 0, Loop_head)"
    using good_step_counts[of 10 ?l1 4 4 4 0 12] 1 by simp
  have 3: "steady 10 ?l3 \<and> counts ?l3 = (12, 12, 12, 0, Loop_head)"
    using good_step_counts[of 10 ?l2 8 8 8 0 12] 2 by simp
  have 4: "steady 10 ?l4 \<and> counts ?l4 = (12, 12, 12, 0, After_loop)"
    using leaving_step_counts[of 10 ?l3 12 12 12 0 "good_batch 12"] 3 by simp
  show ?thesis using 4 by (simp add: run_events_Cons run_events_Nil steady_def del: step.simps)
qed

lemma non_consecutive_errors:
  "counts (run_events
      [Step failing_batch, Step (good_batch 12), Step failing_batch, Step (good_batch 12),
       Step failing_batch, Step (good_batch 12)]
      (start (lagos 10 False))) = (8, 8, 8, 3, After_loop)
   \<and> finished (self (run_events
      [Step failing_batch, Step (good_batch 12), Step failing_batch, Step (good_batch 12),
       Step failing_batch, Step (good_batch 12)]
      (start (lagos 10 False))))
   \<and> \<not> error_occurred (self (run_events
      [Step failing_batch, Step (good_batch 12), Step failing_batch, Step (good_batch 12),
       Step failing_batch, Step (good_batch 12)]
      (start (lagos 10 False))))"
proof -
  let ?l0 = "start (lagos 10 False)"
  let ?l1 = "step (Step failing_batch) ?l0"
  let ?l2 = "step (Step (good_batch 12)) ?l1"
  let ?l3 = "step (Step failing_batch) ?l2"
  let ?l4 = "step (Step (good_batch 12)) ?l3"
  let ?l5 = "step (Step failing_batch) ?l4"
  let ?l6 = "step (Step (good_batch 12)) ?l5"
  have 1: "steady 10 ?l1 \<and> counts ?l1 = (0, 0, 0, 1, Loop_head)"
    using failing_step_counts[OF start_counts, of 10 False] by simp
  have 2: "steady 10 ?l2 \<and> counts ?l2 = (4, 4, 4, 1, Loop_head)"
    using good_step_counts[of 10 ?l1 0 0 0 1 12] 1 by simp
  have 3: "steady 10 ?l3 \<and> counts ?l3 = (4, 4, 4, 2, Loop_head)"
    using failing_step_counts[of 10 ?l2 4 4 4 1] 2 by simp
  have 4: "steady 10 ?l4 \<and> counts ?l4 = (8, 8, 8, 2, Loop_head)"
    using good_step_counts[of 10 ?l3 4 4 4 2 12] 3 by simp
  have 5: "steady 10 ?l5 \<and> counts ?l5 = (8, 8, 8, 3, Loop_head)"
    using failing_step_counts[of 10 ?l4 8 8 8 2] 4 by simp
  have 6: "steady 10 ?l6 \<and> counts ?l6 = (8, 8, 8, 3, After_loop) \<and> finished (self ?l6)"
    using leaving_step_counts[of 10 ?l5 8 8 8 3 "good_batch 12"] 5 by simp
  show ?thesis using 6 by (simp add: run_events_Cons run_events_Nil steady_def del: step.simps)
qed

section \<open>Duplicates in the stream and in the window\<close>

lemma bind_Inr_iff: "(bind r f = Inr y) = (\<exists>x. r = Inr x \<and> f x = Inr y)"
  by (cases r) (auto simp: bind_def)

lemma add_real_time_data_ok:
  assumes "add_real_time_data w data = Inr w'" "window_ok w"
  shows "window_ok w'"
proof (cases "clean_data_entry data")
  case (Inl e)
  then show ?thesis using assms(1) by (simp add: add_real_time_data_def bind_def)
next
  case (Inr cleaned)
  show ?thesis
  proof (cases "unique_key cleaned")
    case (Inl e)
    then show ?thesis using assms(1) Inr by (simp add: add_real_time_data_def bind_def)
  next
    case k: (Inr k)
    show ?thesis
    proof (cases "k \<in> unique_entries w")
      case True
      then have "w' = w" using assms(1) Inr k by (simp add: add_real_time_data_def bind_def)
      then show ?thesis using assms(2) by simp
    next
      case False
      then have w': "w' = w\<lparr>unique_entries := insert k (unique_entries w),
                           collected_data := collected_data w @ [cleaned]\<rparr>"
        using assms(1) Inr k by (simp add: add_real_time_data_def bind_def)
      have "Inr k \<notin> set (map unique_key (collected_data w))"
        using False assms(2) by (auto simp: window_ok_def)
      then show ?thesis using assms(2) k unfolding w' window_ok_def by simp
    qed
  qed
qed

lemma receive_ok:
  "receive w stream = Inr w' \<Longrightarrow> window_ok w \<Longrightarrow> window_ok w'"
proof (induction stream arbitrary: w)
  case Nil then show ?case by simp
next
  case (Cons d rest)
  show ?case
  proof (cases "add_real_time_data w d")
    case (Inl e)
    then show ?thesis using Cons.prems(1) by (simp add: bind_def)
  next
    case (Inr w1)
    then have r: "receive w1 rest = Inr w'" using Cons.prems(1) by (simp add: bind_def)
    show ?thesis using Cons.IH[OF r add_real_time_data_ok[OF Inr Cons.prems(2)]] .
  qed
qed

lemma clear_data_ok: "window_ok clear_data"
  by (simp add: window_ok_def clear_data_def)

lemma receive_distinct:
  "receive clear_data stream = Inr w \<Longrightarrow> distinct (map unique_key (collected_data w))"
  using receive_ok[OF _ clear_data_ok] by (simp add: window_ok_def)

lemma batch_indices_two: "batch_indices (lagos 10 k) 2 = [0, 1]"
proof -
  have "[0..<nat 2] = [0, 1]" by (simp add: upt_rec)
  then show ?thesis by (simp add: batch_indices_def batch_size_def lagos_def init_def)
qed

lemma tagged_lagos: "tagged (lagos n k) (shop_record ph) = emitted ph"
  by (simp add: tagged_def emitted_def lagos_def init_def)

lemma duplicate_stream:
  "data_collected (self (run_events [Step (good_batch 2)] (start (lagos 10 k))))
     = [emitted ''0803 123 4567'', emitted ''N/A'']"
proof -
  have a: "at (start (lagos 10 k)) = Loop_head" "loop_condition (start (lagos 10 k))"
    "internet_connected (self (start (lagos 10 k)))"
    "processed_count (self (start (lagos 10 k))) < int 2"
    by (simp_all add: start_def lagos_def init_def loop_condition_def)
  have s: "self (start (lagos 10 k)) = lagos 10 k" by (simp add: start_def)
  have d: "data_collected (lagos 10 k) = []" by (simp add: lagos_def init_def)
  show ?thesis
    unfolding run_events_Cons run_events_Nil good_step[OF a] s batch_indices_two
    by (simp add: tagged_lagos d)
qed

lemma emitted_phone: "emitted ph ''phone'' = Some (Str ph)"
  by (simp add: emitted_def shop_record_def)

lemma emitted_differ: "emitted ''0803 123 4567'' \<noteq> emitted ''N/A''"
proof
  assume "emitted ''0803 123 4567'' = emitted ''N/A''"
  then have "emitted ''0803 123 4567'' ''phone'' = emitted ''N/A'' ''phone''" by simp
  then show False by (simp add: emitted_phone)
qed

lemma emitted_key:
  "unique_key (emitted ph) = Inr (''corner shop'', ''12 main street ikeja lagos'')"
proof -
  have "lower (strip ''Corner Shop'') = ''corner shop''"
    "lower (strip ''12 Main Street Ikeja Lagos'') = ''12 main street ikeja lagos''"
    by code_simp+
  then show ?thesis
    by (simp add: unique_key_def key_part_def get_def bind_def emitted_def shop_record_def)
qed

lemma emitted_get:
  "get (emitted ph) ''name'' x = Str ''Corner Shop''"
  "get (emitted ph) ''phone'' x = Str ph"
  "get (emitted ph) ''email'' x = Str ''N/A''"
  "get (emitted ph) ''website'' x = Str ''https://corner.example''"
  "get (emitted ph) ''instagram'' x = Str ''N/A''"
  "get (emitted ph) ''address'' x = Str ''12 Main Street Ikeja Lagos''"
  by (simp_all add: get_def emitted_def shop_record_def)

lemma clean_emitted:
  assumes "clean_phone (Str ph) = Inr ph'"
  shows "clean_data_entry (emitted ph) =
     Inr (cleaned_of (emitted ph) (Str ''Corner Shop'') ph' (Str ''N/A'')
            (Str ''https://corner.example'') (Str ''N/A'') (Str ''12 Main Street Ikeja Lagos''))"
proof -
  have c: "clean_spaces (Str ''Corner Shop'') = Inr (Str ''Corner Shop'')"
    "clean_spaces (Str ''12 Main Street Ikeja Lagos'') = Inr (Str ''12 Main Street Ikeja Lagos'')"
    "clean_website (Str ''https://corner.example'') = Inr (Str ''https://corner.example'')"
    "clean_email (Str ''N/A'') = Inr (Str ''N/A'')"
    "clean_instagram (Str ''N/A'') = Inr (Str ''N/A'')"
    by code_simp+
  show ?thesis
    unfolding clean_data_entry_def emitted_get c assms by (simp add: bind_def)
qed

lemma cleaned_key:
  "unique_key (cleaned_of d (Str ''Corner Shop'') p e w i (Str ''12 Main Street Ikeja Lagos''))
     = Inr (''corner shop'', ''12 main street ikeja lagos'')"
proof -
  have "lower (strip ''Corner Shop'') = ''corner shop''"
    "lower (strip ''12 Main Street Ikeja Lagos'') = ''12 main street ikeja lagos''"
    by code_simp+
  then show ?thesis
    by (simp add: unique_key_def key_part_def cleaned_of_get bind_def)
qed

lemma clean_phones:
  "clean_phone (Str ''0803 123 4567'') = Inr (Str ''+23408031234567'')"
  "clean_phone (Str ''N/A'') = Inr (Str ''N/A'')"
  by code_simp+

lemma receive_duplicates:
  "receive clear_data [emitted ''0803 123 4567'', emitted ''N/A''] =
     Inr \<lparr>collected_data = [kept],
          unique_entries = {(''corner shop'', ''12 main street ikeja lagos'')}\<rparr>"
  by (simp add: add_real_time_data_def clean_emitted[OF clean_phones(1)]
      clean_emitted[OF clean_phones(2)] cleaned_key bind_def clear_data_def kept_def)

lemma remove_duplicates_stream:
  "remove_duplicates [emitted ''0803 123 4567'', emitted ''N/A''] = Inr [emitted ''0803 123 4567'']"
  by (simp add: remove_duplicates_def emitted_key)

section \<open>The claims about the collector\<close>

text \<open>
  Claim C1 on the code.  The batch size is bounded by the remaining results and the
  remaining attempts, not by the remaining target.  In Scenario A (target 10, twelve
  results, all accepted) the third batch starts with 8 accepted records and adds four:
  the run emits 12 records for a target of 10.  (The attempts stay within
  \<open>max_to_process\<close>, see \<open>run_processed_bound\<close>.)
\<close>

theorem batch_overshoots_target:
  "num_entries (self scenario_a) = 10
   \<and> collected_count (self scenario_a) = 12
   \<and> length (data_collected (self scenario_a)) = 12
   \<and> processed_count (self scenario_a) = 12
   \<and> at scenario_a = After_loop"
  using scenario_a_counts by (simp add: scenario_a_def counts_def)

text \<open>
  Claim C4 on the code.  \<open>consecutive_errors\<close> is set to 0 before the loop and never
  again.  With a successful batch after the first and after the second failing batch,
  the third failure brings the count to 3 and the loop ends, below the target and the
  attempt budget and without a stop request; the run then emits \<open>finished\<close>, not
  \<open>error_occurred\<close>.  (A failing batch leaves \<open>processed_count\<close> as it is, see
  \<open>failed_batch_keeps_processed\<close>.)
\<close>

theorem errors_are_not_reset:
  "at interleaved_errors = After_loop
   \<and> consecutive_errors interleaved_errors = 3
   \<and> collected_count (self interleaved_errors) = 8
   \<and> processed_count (self interleaved_errors) = 8
   \<and> finished (self interleaved_errors)
   \<and> \<not> error_occurred (self interleaved_errors)"
  using non_consecutive_errors by (simp add: interleaved_errors_def counts_def)

lemma after_first_batch_counts:
  "steady 10 after_first_batch \<and> counts after_first_batch = (4, 4, 4, 0, Loop_head)"
  unfolding after_first_batch_def
  using good_step_counts[OF start_counts, of 10 12 False] by simp

lemma disconnected_facts:
  "at disconnected = Loop_head" "\<not> internet_connected (self disconnected)"
  "loop_condition disconnected" "is_running (self disconnected)"
  using after_first_batch_counts
  by (simp_all add: disconnected_def steady_def counts_def loop_condition_def)

lemma paused_facts:
  "at paused = Waiting" "is_running (self paused)" "\<not> internet_connected (self paused)"
  using disconnected_facts
  by (simp_all add: paused_def loop_head_def Let_def)

text \<open>
  Claim C7.  A step of the loop taken while \<open>internet_connected\<close> is false starts no
  worker and changes neither \<open>processed_count\<close> nor the accepted records.  From the
  waiting loop, once the connection is back and the run is not stopped, the next step
  returns to the head of the loop, and a step at the head of the loop with the connection
  up, the loop condition true and results left starts a non-empty batch.  Along every
  sequence of events \<open>collected_count\<close> does not decrease and the emitted records are
  only extended.
\<close>

theorem pause_and_resume:
  "(\<not> internet_connected (self l) \<longrightarrow>
       started (self (step (Step b) l)) = started (self l)
     \<and> processed_count (self (step (Step b) l)) = processed_count (self l)
     \<and> collected_count (self (step (Step b) l)) = collected_count (self l)
     \<and> data_collected (self (step (Step b) l)) = data_collected (self l))
   \<and> (at l = Waiting \<and> is_running (self l) \<longrightarrow>
        at (step (Step b) (step (Set_connection_status True) l)) = Loop_head)
   \<and> (at l = Loop_head \<and> internet_connected (self l) \<and> loop_condition l
        \<and> results1 b = Some n \<and> processed_count (self l) < int n \<longrightarrow>
        started (self (step (Step b) l)) = started (self l) @ batch_indices (self l) n
        \<and> batch_indices (self l) n \<noteq> [])
   \<and> collected_count (self l) \<le> collected_count (self (run_events evs l))
   \<and> prefix (data_collected (self l)) (data_collected (self (run_events evs l)))"
  using paused_no_dispatch[of l b] waiting_resumes[of l b] connected_dispatches[of l b n]
    run_events_grows[of l evs]
  by blast

theorem pause_and_resume_witness:
  "\<not> internet_connected (self disconnected)
   \<and> started (self (step (Step (good_batch 12)) disconnected)) = started (self disconnected)
   \<and> collected_count (self (step (Step (good_batch 12)) disconnected)) = 4
   \<and> at paused = Waiting \<and> is_running (self paused)
   \<and> at (step (Step (good_batch 12)) (step (Set_connection_status True) paused)) = Loop_head
   \<and> at (start (lagos 10 False)) = Loop_head
   \<and> internet_connected (self (start (lagos 10 False)))
   \<and> loop_condition (start (lagos 10 False))
   \<and> results1 (good_batch 12) = Some 12
   \<and> processed_count (self (start (lagos 10 False))) < int 12
   \<and> started (self (step (Step (good_batch 12)) (start (lagos 10 False)))) = [0, 1, 2, 3]
   \<and> collected_count (self disconnected)
       \<le> collected_count (self (run_events [Step (good_batch 12)] disconnected))"
proof -
  have c: "collected_count (self disconnected) = 4"
    using after_first_batch_counts by (simp add: disconnected_def counts_def)
  have s: "at (start (lagos 10 False)) = Loop_head"
    "internet_connected (self (start (lagos 10 False)))"
    "loop_condition (start (lagos 10 False))"
    "results1 (good_batch 12) = Some 12"
    "processed_count (self (start (lagos 10 False))) < int 12"
    "started (self (start (lagos 10 False))) = []"
    by (simp_all add: start_def lagos_def init_def loop_condition_def good_batch_def)
  have "[0..<nat 4] = [0, 1, 2, 3]" by (simp add: upt_rec)
  then have b: "batch_indices (self (start (lagos 10 False))) 12 = [0, 1, 2, 3]"
    by (simp add: batch_indices_def batch_size_def start_def lagos_def init_def)
  show ?thesis
    using pause_and_resume[of disconnected "good_batch 12" 12 "[Step (good_batch 12)]"]
      pause_and_resume[of paused "good_batch 12" 12 "[]"]
      pause_and_resume[of "start (lagos 10 False)" "good_batch 12" 12 "[]"]
      disconnected_facts paused_facts c s b
    by simp
qed

lemma run_two_results:
  "data_collected (run (lagos 10 k) two_results) = [emitted ''0803 123 4567'', emitted ''N/A'']"
proof -
  have "run (lagos 10 k) two_results
      = self (run_events [Step (good_batch 2)] (start (lagos 10 k)))"
    by (simp add: run_def two_results_def lagos_def init_def)
  then show ?thesis by (simp add: duplicate_stream)
qed

text \<open>
  Claim C2 as stated fails: \<open>handle_data_ready\<close> emits every accepted record.  Two
  results with the same name and address and different phone numbers are both emitted in
  one run.
\<close>

theorem stream_has_duplicates:
  "data_collected (run (lagos 10 False) two_results) = [emitted ''0803 123 4567'', emitted ''N/A'']
   \<and> emitted ''0803 123 4567'' \<noteq> emitted ''N/A''
   \<and> unique_key (emitted ''0803 123 4567'') = unique_key (emitted ''N/A'')"
  using run_two_results[of False] emitted_differ by (simp add: emitted_key)

text \<open>
  Claim C2, as the code has it.  Duplicates are rejected by the consumers of the stream:
  the records that the window keeps from the stream of a run (\<open>add_real_time_data\<close>,
  starting from a cleared window), and the result of \<open>remove_duplicates\<close> on the stream,
  contain no two records with the same key (stripped, lowercased name and address).
\<close>

theorem duplicates_removed_downstream:
  "(receive clear_data (data_collected (run s w)) = Inr win \<longrightarrow>
      distinct (map unique_key (collected_data win)))
   \<and> (remove_duplicates (data_collected (run s w)) = Inr out \<longrightarrow>
      distinct (map unique_key out))"
proof (intro conjI impI)
  assume "receive clear_data (data_collected (run s w)) = Inr win"
  then show "distinct (map unique_key (collected_data win))" by (rule receive_distinct)
next
  assume "remove_duplicates (data_collected (run s w)) = Inr out"
  then have "out = firsts {} (data_collected (run s w))" by (rule remove_duplicates_firsts)
  then show "distinct (map unique_key out)" by (simp add: firsts_distinct)
qed

theorem duplicates_removed_downstream_witness:
  "receive clear_data (data_collected (run (lagos 10 False) two_results)) =
     Inr \<lparr>collected_data = [kept],
          unique_entries = {(''corner shop'', ''12 main street ikeja lagos'')}\<rparr>
   \<and> distinct (map unique_key [kept])
   \<and> remove_duplicates (data_collected (run (lagos 10 False) two_results))
       = Inr [emitted ''0803 123 4567'']
   \<and> distinct (map unique_key [emitted ''0803 123 4567''])"
proof -
  have 1: "receive clear_data (data_collected (run (lagos 10 False) two_results)) =
     Inr \<lparr>collected_data = [kept],
          unique_entries = {(''corner shop'', ''12 main street ikeja lagos'')}\<rparr>"
    unfolding run_two_results by (rule receive_duplicates)
  have 2: "remove_duplicates (data_collected (run (lagos 10 False) two_results))
       = Inr [emitted ''0803 123 4567'']"
    unfolding run_two_results by (rule remove_duplicates_stream)
  show ?thesis
    using duplicates_removed_downstream[of "lagos 10 False" two_results
        "\<lparr>collected_data = [kept], unique_entries = {(''corner shop'', ''12 main street ikeja lagos'')}\<rparr>"
        "[emitted ''0803 123 4567'']"] 1 2
    by simp
qed

text \<open>
  Claim C3.  When \<open>skip_missing_social\<close> is set, every record that a run emits, through
  the workers or through the API, has a website or an Instagram value other than
  \<open>N/A\<close>.  A worker whose extracted record has both equal to \<open>N/A\<close> emits \<open>skipped\<close>
  with the entry number, and the API loop counts such a place as skipped and emits
  \<open>entry_skipped\<close> for it.
\<close>

theorem completeness_policy:
  assumes "skip_missing_social s" and "data_collected s = []"
  shows "(\<forall>d\<in>set (data_collected (run s w)).
            d ''website'' \<noteq> Some (Str ''N/A'') \<or> d ''instagram'' \<noteq> Some (Str ''N/A''))
     \<and> (click_ok wi \<and> extracted wi = Some d \<and> d ''website'' = Some (Str ''N/A'')
          \<and> d ''instagram'' = Some (Str ''N/A'') \<longrightarrow>
          (\<exists>n a. worker_run True i wi = Skipped (i + 1) n a))
     \<and> (running p \<and> c < num_entries s \<and> has_place_id p \<and> details p = Some det
          \<and> get det ''website'' (Str ''N/A'') = Str ''N/A'' \<longrightarrow>
          api_loop fetch [p] c s =
            s\<lparr>skipped_count := skipped_count s + 1,
              entry_skipped := entry_skipped s
                @ [(nat (c + 1), get det ''name'' (Str ''N/A''),
                    (case formatted_address p of None \<Rightarrow> Str ''N/A'' | Some a \<Rightarrow> a))]\<rparr>)"
proof (intro conjI impI)
  show "\<forall>d\<in>set (data_collected (run s w)).
            d ''website'' \<noteq> Some (Str ''N/A'') \<or> d ''instagram'' \<noteq> Some (Str ''N/A'')"
    using run_complete[OF assms, of w] by (simp add: complete_def)
next
  assume a: "click_ok wi \<and> extracted wi = Some d \<and> d ''website'' = Some (Str ''N/A'')
          \<and> d ''instagram'' = Some (Str ''N/A'')"
  then have "d \<noteq> Map.empty" by auto
  then show "\<exists>n a. worker_run True i wi = Skipped (i + 1) n a"
    using a worker_run_skips[of wi d i] by blast
next
  assume "running p \<and> c < num_entries s \<and> has_place_id p \<and> details p = Some det
          \<and> get det ''website'' (Str ''N/A'') = Str ''N/A''"
  then show "api_loop fetch [p] c s =
            s\<lparr>skipped_count := skipped_count s + 1,
              entry_skipped := entry_skipped s
                @ [(nat (c + 1), get det ''name'' (Str ''N/A''),
                    (case formatted_address p of None \<Rightarrow> Str ''N/A'' | Some a \<Rightarrow> a))]\<rparr>"
    using assms(1) api_skips[of s p c det fetch] by blast
qed

theorem completeness_policy_witness:
  "skip_missing_social (lagos 10 True) \<and> data_collected (lagos 10 True) = []
   \<and> data_collected (run (lagos 10 True) two_results)
       = [emitted ''0803 123 4567'', emitted ''N/A'']
   \<and> emitted ''0803 123 4567'' ''website'' \<noteq> Some (Str ''N/A'')
   \<and> emitted ''N/A'' ''website'' \<noteq> Some (Str ''N/A'')
   \<and> click_ok bare_worker \<and> extracted bare_worker = Some bare_record
   \<and> bare_record ''website'' = Some (Str ''N/A'')
   \<and> bare_record ''instagram'' = Some (Str ''N/A'')
   \<and> (\<exists>n a. worker_run True 1 bare_worker = Skipped 2 n a)
   \<and> running bare_place \<and> 0 < num_entries (lagos 10 True) \<and> has_place_id bare_place
   \<and> details bare_place = Some [''name'' \<mapsto> Str ''Corner Shop'']
   \<and> api_loop (\<lambda>u. None) [bare_place] 0 (lagos 10 True) =
        (lagos 10 True)\<lparr>skipped_count := 1,
           entry_skipped := [(1, Str ''Corner Shop'', Str ''12 Main Street Ikeja Lagos'')]\<rparr>"
proof -
  have h: "skip_missing_social (lagos 10 True)" "data_collected (lagos 10 True) = []"
    "num_entries (lagos 10 True) = 10" "skipped_count (lagos 10 True) = 0"
    "entry_skipped (lagos 10 True) = []"
    by (simp_all add: lagos_def init_def)
  have b: "click_ok bare_worker" "extracted bare_worker = Some bare_record"
    "bare_record ''website'' = Some (Str ''N/A'')"
    "bare_record ''instagram'' = Some (Str ''N/A'')"
    by (simp_all add: bare_worker_def bare_record_def shop_record_def)
  have p: "running bare_place" "has_place_id bare_place"
    "details bare_place = Some [''name'' \<mapsto> Str ''Corner Shop'']"
    "formatted_address bare_place = Some (Str ''12 Main Street Ikeja Lagos'')"
    "get [''name'' \<mapsto> Str ''Corner Shop''] ''website'' (Str ''N/A'') = Str ''N/A''"
    "get [''name'' \<mapsto> Str ''Corner Shop''] ''name'' (Str ''N/A'') = Str ''Corner Shop''"
    by (simp_all add: bare_place_def get_def)
  have w: "emitted ''0803 123 4567'' ''website'' \<noteq> Some (Str ''N/A'')"
    "emitted ''N/A'' ''website'' \<noteq> Some (Str ''N/A'')"
    by (simp_all add: emitted_def shop_record_def)
  note T = completeness_policy[OF h(1,2), where w = two_results and wi = bare_worker
        and d = bare_record and p = bare_place and c = 0
        and det = "[''name'' \<mapsto> Str ''Corner Shop'']" and i = 1 and fetch = "\<lambda>u. None"]
  from T b have "\<exists>n a. worker_run True 1 bare_worker = Skipped (1 + 1) n a" by blast
  then have t2: "\<exists>n a. worker_run True 1 bare_worker = Skipped 2 n a"
    by (simp only: one_add_one)
  from T p h(3) have "api_loop (\<lambda>u. None) [bare_place] 0 (lagos 10 True) =
      (lagos 10 True)\<lparr>skipped_count := skipped_count (lagos 10 True) + 1,
        entry_skipped := entry_skipped (lagos 10 True)
          @ [(nat (0 + 1), get [''name'' \<mapsto> Str ''Corner Shop''] ''name'' (Str ''N/A''),
              (case formatted_address bare_place of None \<Rightarrow> Str ''N/A'' | Some a \<Rightarrow> a))]\<rparr>"
    by simp
  then have t3: "api_loop (\<lambda>u. None) [bare_place] 0 (lagos 10 True) =
        (lagos 10 True)\<lparr>skipped_count := 1,
           entry_skipped := [(1, Str ''Corner Shop'', Str ''12 Main Street Ikeja Lagos'')]\<rparr>"
    by (simp add: h p del: api_loop.simps)
  show ?thesis
    using run_two_results[of True] h(1,2,3) b p(1,2,3) w t2 t3 by simp
qed

end
